theory Spec2Isabelle
  imports Complex_Main
begin

section \<open>Exceptions\<close>

text \<open>
  The Python exceptions the two functions of the notebook can end in. A call that raises
  is modelled by \<open>Inl\<close> of the exception, a call that returns by \<open>Inr\<close> of the value.
\<close>

datatype error = ZeroDivisionError | ValueError | IndexError

section \<open>Slices and two-dimensional arrays\<close>

text \<open>
  \<open>xs[:stop]\<close> for any Python integer \<open>stop\<close>: a negative \<open>stop\<close> counts from the end,
  and both ends are clipped to the sequence.
\<close>

definition slice_stop :: "nat \<Rightarrow> int \<Rightarrow> nat" where
  "slice_stop len stop =
     (if stop < 0 then nat (max 0 (int len + stop)) else nat (min stop (int len)))"

definition py_take :: "'a list \<Rightarrow> int \<Rightarrow> 'a list" where
  "py_take xs stop = take (slice_stop (length xs) stop) xs"

text \<open>\<open>xs[a:b]\<close> for indices \<open>0 \<le> a\<close> and \<open>0 \<le> b\<close>; empty when \<open>b \<le> a\<close>.\<close>

definition slice :: "'a list \<Rightarrow> nat \<Rightarrow> nat \<Rightarrow> 'a list" where
  "slice xs a b = take (b - a) (drop a xs)"

text \<open>
  The largest \<open>npy_intp\<close> of a 64-bit platform, and the item size of the corpus, which the
  notebook encodes as an array of \<open>np.int32\<close>.
\<close>

definition intp_max :: int where
  "intp_max = 2 ^ 63 - 1"

definition itemsize :: int where
  "itemsize = 4"

text \<open>
  A two-dimensional array is the list of its rows. \<open>arr.reshape((rows, -1))\<close> of a
  one-dimensional array: numpy refuses a negative row count (a second unknown
  dimension), a row count of zero and a size that the row count does not divide. It
  then multiplies the item size by the dimensions that are not zero and refuses a
  product beyond \<open>intp_max\<close> (\<open>array is too big\<close>; a row count beyond \<open>intp_max\<close> itself is
  refused as well). For an array that is not empty the product is the size in bytes of
  the array that is reshaped, which exists, so this check can only fail for the empty
  array, where the product is \<open>itemsize * rows\<close>. Else row \<open>i\<close> is the \<open>i\<close>-th run of
  \<open>size / rows\<close> consecutive elements (row-major order). Every refusal is a
  \<open>ValueError\<close>.
\<close>

definition reshape_rows :: "int list \<Rightarrow> int \<Rightarrow> error + int list list" where
  "reshape_rows xs rows =
     (if rows < 0 then Inl ValueError
      else if rows = 0 \<or> int (length xs) mod rows \<noteq> 0 then Inl ValueError
      else let c = length xs div nat rows
           in if c = 0 \<and> intp_max < itemsize * rows then Inl ValueError
              else Inr (map (\<lambda>i. slice xs (i * c) (i * c + c)) [0..<nat rows]))"

text \<open>\<open>arr.shape[1]\<close> of a two-dimensional array with at least one row.\<close>

definition ncols :: "'a list list \<Rightarrow> nat" where
  "ncols arr = (case arr of [] \<Rightarrow> 0 | r # _ \<Rightarrow> length r)"

section \<open>The batch generator\<close>

type_synonym batch = "int list list \<times> int list list"

text \<open>
  One pass of the loop body of \<open>get_batches\<close> at window start \<open>n\<close>:
  \<open>x = arr[:, n:n+n_steps]\<close>, \<open>y_temp = arr[:, n+1:n+n_steps+1]\<close>,
  \<open>y = np.zeros(x.shape)\<close> and \<open>y[:, :y_temp.shape[1]] = y_temp\<close>. The slice \<open>y_temp\<close>
  is never wider than \<open>x\<close>, so the assignment overwrites a prefix of each zero row.
\<close>

definition window :: "int list list \<Rightarrow> nat \<Rightarrow> nat \<Rightarrow> batch" where
  "window arr n_steps n =
     (let x = map (\<lambda>row. slice row n (n + n_steps)) arr;
          y_temp = map (\<lambda>row. slice row (n + 1) (n + n_steps + 1)) arr;
          y = map2 (\<lambda>xr tr. tr @ drop (length tr) (replicate (length xr) 0)) x y_temp
      in (x, y))"

text \<open>
  \<open>for n in range(0, arr.shape[1], n_steps): ... yield x, y\<close> from the current \<open>n\<close> on,
  for a positive step; the list of everything the generator yields. (A step of zero
  never reaches the loop: the division by \<open>chars_per_batch\<close> has raised before.)
\<close>

function batches_from :: "int list list \<Rightarrow> nat \<Rightarrow> nat \<Rightarrow> nat \<Rightarrow> batch list" where
  "batches_from arr stop n_steps n =
     (if n < stop \<and> 0 < n_steps
      then window arr n_steps n # batches_from arr stop n_steps (n + n_steps)
      else [])"
  by pat_completeness auto
termination
  by (relation "measure (\<lambda>(arr, stop, n_steps, n). stop - n)") auto

declare batches_from.simps [simp del]

text \<open>
  The body of \<open>get_batches\<close> before its loop: \<open>chars_per_batch\<close>, \<open>n_batches\<close>, the
  truncation \<open>arr[:n_batches * chars_per_batch]\<close> and the reshape into \<open>batch_size\<close>
  rows (the lanes). The division raises when \<open>batch_size * n_steps\<close> is zero; \<open>//\<close>
  rounds towards minus infinity, as \<open>div\<close> does on \<open>int\<close>.
\<close>

definition lanes :: "int list \<Rightarrow> int \<Rightarrow> int \<Rightarrow> error + int list list" where
  "lanes arr batch_size n_steps =
     (let chars_per_batch = batch_size * n_steps in
      if chars_per_batch = 0 then Inl ZeroDivisionError
      else
        let n_batches = int (length arr) div chars_per_batch;
            arr1 = py_take arr (n_batches * chars_per_batch)
        in reshape_rows arr1 batch_size)"

text \<open>
  \<open>get_batches(arr, batch_size, n_steps)\<close>, run to exhaustion: the lanes, then the loop.
  A range with a negative step and a stop that is not negative is empty.
\<close>

definition get_batches :: "int list \<Rightarrow> int \<Rightarrow> int \<Rightarrow> error + batch list" where
  "get_batches arr batch_size n_steps =
     (case lanes arr batch_size n_steps of
        Inl e \<Rightarrow> Inl e
      | Inr arr2 \<Rightarrow>
          if n_steps < 0 then Inr []
          else Inr (batches_from arr2 (ncols arr2) (nat n_steps) 0))"

section \<open>The constrained sampler\<close>

text \<open>
  Probabilities are modelled as real numbers: the arithmetic of \<open>pick_top_n\<close> (one sum,
  one division per entry, a running sum) is exact here, and the rounding of floating
  point is outside the model. What rounding can change is the value of a quotient and
  the place where a running sum passes the sample \<open>u\<close>, so which of the entries of
  positive weight is drawn. It does not change which entries are zero and which are
  positive, that a cleared entry is never drawn, and what is written to \<open>preds\<close>; the
  theorems about the sampler state only such facts, and name the index drawn only
  where a single entry has positive weight.

  The arrays of the sampler live in a store of data buffers, so that a view and the
  array it was taken from share their buffer. The argument \<open>preds\<close> is a numpy array of
  shape \<open>(V,)\<close> or \<open>(1, V)\<close> (in the notebook, the \<open>(1, V)\<close> output of the network), given
  by the address of its buffer.
\<close>

type_synonym addr = nat

type_synonym store = "addr \<Rightarrow> real list"

text \<open>
  \<open>np.squeeze(preds)\<close> returns a view: the same buffer with every axis of length one
  removed. The result is one-dimensional of length \<open>V\<close>, unless \<open>V = 1\<close>, where no axis
  is left and the view is zero-dimensional.
\<close>

datatype view = Scalar addr | Vec addr

definition squeeze :: "store \<Rightarrow> addr \<Rightarrow> view" where
  "squeeze st a = (if length (st a) = 1 then Scalar a else Vec a)"

text \<open>
  \<open>np.argsort\<close> is numpy's; the model takes it as the parameter \<open>argsort\<close> of
  \<open>pick_top_n\<close>. What numpy promises is \<open>is_argsort p (argsort p)\<close>: the result lists
  every index of \<open>p\<close> once, in an order that sorts \<open>p\<close> ascending. The order among equal
  entries is not promised (the default sort is not stable). \<open>stable_argsort\<close> is one
  such function.
\<close>

definition is_argsort :: "real list \<Rightarrow> nat list \<Rightarrow> bool" where
  "is_argsort p idx =
     (distinct idx \<and> set idx = {..<length p} \<and> sorted (map (\<lambda>i. p ! i) idx))"

definition stable_argsort :: "real list \<Rightarrow> nat list" where
  "stable_argsort p = sort_key (\<lambda>i. p ! i) [0..<length p]"

text \<open>\<open>p[idx] = 0\<close> for an array \<open>idx\<close> of indices of \<open>p\<close>.\<close>

definition zero_at :: "nat list \<Rightarrow> real list \<Rightarrow> real list" where
  "zero_at idx p = fold (\<lambda>i q. q[i := 0]) idx p"

text \<open>
  The masking step \<open>p[np.argsort(p)[:-top_n]] = 0\<close>: the indices to clear are the
  argsort without its last \<open>top_n\<close> entries, by the slice \<open>[:-top_n]\<close>.
\<close>

definition keep_top :: "(real list \<Rightarrow> nat list) \<Rightarrow> real list \<Rightarrow> int \<Rightarrow> real list" where
  "keep_top argsort p top_n = zero_at (py_take (argsort p) (- top_n)) p"

text \<open>\<open>p / np.sum(p)\<close>, a new array, for a sum that is not zero.\<close>

definition renorm :: "real list \<Rightarrow> real list" where
  "renorm p = map (\<lambda>x. x / sum_list p) p"

text \<open>\<open>p.cumsum()\<close>, with the running sum carried along.\<close>

fun cumsum_from :: "real \<Rightarrow> real list \<Rightarrow> real list" where
  "cumsum_from acc [] = []"
| "cumsum_from acc (x # xs) = (acc + x) # cumsum_from (acc + x) xs"

text \<open>
  \<open>np.random.choice(a, 1, p=p)[0]\<close> for an integer \<open>a\<close>, with the uniform sample \<open>u\<close> of
  \<open>[0, 1)\<close> that it takes from the random source made a parameter. numpy checks that
  \<open>a\<close> is positive, that \<open>p\<close> has \<open>a\<close> entries, none negative, and that they sum to one
  within the tolerance \<open>atol\<close> (the square root of the double precision machine
  epsilon; after the division by the sum the check cannot fail); then it returns the
  position of \<open>u\<close> in the normalized running sums (\<open>searchsorted\<close> with
  \<open>side='right'\<close>): the first index whose running sum exceeds \<open>u\<close>. Every failed check is
  a \<open>ValueError\<close>.
\<close>

definition atol :: real where
  "atol = 1 / 2 ^ 26"

definition choice :: "real \<Rightarrow> int \<Rightarrow> real list \<Rightarrow> error + nat" where
  "choice u a p =
     (if a \<le> 0 then Inl ValueError
      else if int (length p) \<noteq> a then Inl ValueError
      else if list_ex (\<lambda>x. x < 0) p then Inl ValueError
      else if \<bar>sum_list p - 1\<bar> > atol then Inl ValueError
      else
        let cdf = cumsum_from 0 p;
            cdf1 = map (\<lambda>c. c / last cdf) cdf
        in Inr (length (takeWhile (\<lambda>c. c \<le> u) cdf1)))"

text \<open>
  \<open>pick_top_n(preds, vocab_size, top_n)\<close>: the store after the call, and the exception
  or the index drawn. Indexing the zero-dimensional view with an index array raises
  before anything is written. On a one-dimensional view the zeros are written through
  the view into the buffer of \<open>preds\<close>; the division makes a new array, and a sum of
  zero makes it an array of NaN (or an empty one), which \<open>np.random.choice\<close> refuses.
\<close>

definition pick_top_n ::
  "(real list \<Rightarrow> nat list) \<Rightarrow> real \<Rightarrow> store \<Rightarrow> addr \<Rightarrow> int \<Rightarrow> int \<Rightarrow> store \<times> (error + nat)" where
  "pick_top_n argsort u st preds vocab_size top_n =
     (case squeeze st preds of
        Scalar a \<Rightarrow> (st, Inl IndexError)
      | Vec a \<Rightarrow>
          let st1 = st(a := keep_top argsort (st a) top_n);
              s = sum_list (st1 a)
          in (st1, if s = 0 then Inl ValueError else choice u vocab_size (renorm (st1 a))))"

text \<open>The store whose buffer at address 0 holds \<open>p\<close>; every other buffer is empty.\<close>

definition store_of :: "real list \<Rightarrow> store" where
  "store_of p = (\<lambda>_. [])(0 := p)"

text \<open>
  \<open>x.shape == (n, m)\<close> for a two-dimensional array given by its rows.
\<close>

definition has_shape :: "nat \<Rightarrow> nat \<Rightarrow> 'a list list \<Rightarrow> bool" where
  "has_shape n m a = (length a = n \<and> (\<forall>r \<in> set a. length r = m))"

section \<open>Properties of the batch generator\<close>

subsection \<open>Slices, truncation and reshape\<close>

lemma length_slice: "length (slice xs a b) = min (b - a) (length xs - a)"
  by (simp add: slice_def)

lemma nth_slice: "j < b - a \<Longrightarrow> a + j < length xs \<Longrightarrow> slice xs a b ! j = xs ! (a + j)"
  by (simp add: slice_def)

lemma slice_take: "b \<le> t \<Longrightarrow> slice (take t xs) a b = slice xs a b"
  by (simp add: slice_def drop_take min_def)

lemma py_take_trunc:
  assumes "0 < q"
  shows "py_take arr (int (length arr) div int q * int q) = take (length arr div q * q) arr"
proof -
  have "int (length arr) div int q * int q = int (length arr div q * q)"
    by (simp add: zdiv_int)
  moreover have "length arr div q * q \<le> length arr" by simp
  ultimately show ?thesis
    unfolding py_take_def slice_stop_def by (simp del: of_nat_mult)
qed

lemma reshape_rows_exact:
  assumes "0 < N" "length xs = N * c" "0 < c \<or> itemsize * int N \<le> intp_max"
  shows "reshape_rows xs (int N) = Inr (map (\<lambda>i. slice xs (i * c) (i * c + c)) [0..<N])"
  using assms unfolding reshape_rows_def Let_def
  by (auto simp add: zmod_int simp flip: of_nat_mult)

lemma reshape_rows_too_big:
  assumes "0 < N" "intp_max < itemsize * int N"
  shows "reshape_rows [] (int N) = Inl ValueError"
  using assms unfolding reshape_rows_def Let_def by simp

lemma lanes_eq:
  assumes "0 < N" "0 < M"
    and fit: "1 \<le> length arr div (N * M) \<or> itemsize * int N \<le> intp_max"
  shows "lanes arr (int N) (int M) =
    Inr (map (\<lambda>i. slice arr (i * (length arr div (N * M) * M)) (i * (length arr div (N * M) * M) + length arr div (N * M) * M)) [0..<N])"
proof -
  define K where "K = length arr div (N * M)"
  define c where "c = K * M"
  have q: "0 < N * M" using assms by simp
  have "K * (N * M) \<le> length arr" unfolding K_def by simp
  then have len: "length (take (K * (N * M)) arr) = N * c"
    unfolding c_def by (simp add: ac_simps min_absorb2)
  have "lanes arr (int N) (int M) = reshape_rows (take (K * (N * M)) arr) (int N)"
    using assms py_take_trunc[OF q, of arr]
    unfolding lanes_def Let_def K_def by (simp)
  also have "\<dots> = Inr (map (\<lambda>i. slice (take (K * (N * M)) arr) (i * c) (i * c + c)) [0..<N])"
  proof (rule reshape_rows_exact[OF assms(1) len])
    show "0 < c \<or> itemsize * int N \<le> intp_max"
      using fit assms(2) unfolding c_def K_def by auto
  qed
  also have "\<dots> = Inr (map (\<lambda>i. slice arr (i * c) (i * c + c)) [0..<N])"
  proof -
    have "slice (take (K * (N * M)) arr) (i * c) (i * c + c) = slice arr (i * c) (i * c + c)"
      if "i < N" for i
    proof (rule slice_take)
      have a: "i * c + c = (i + 1) * c" by simp
      have b: "K * (N * M) = N * c" by (simp add: c_def)
      have "(i + 1) * c \<le> N * c" using that by (simp add: Suc_leI mult_le_mono1 del: mult_Suc)
      then show "i * c + c \<le> K * (N * M)" unfolding a b .
    qed
    then show ?thesis by simp
  qed
  finally show ?thesis unfolding c_def K_def .
qed

lemma lanes_too_big:
  assumes "0 < N" "0 < M" "length arr < N * M" "intp_max < itemsize * int N"
  shows "lanes arr (int N) (int M) = Inl ValueError"
proof -
  have q: "0 < N * M" using assms(1,2) by simp
  have K: "length arr div (N * M) = 0" using assms(3) by simp
  have "lanes arr (int N) (int M) = reshape_rows (take (0 * (N * M)) arr) (int N)"
    using assms(1,2) py_take_trunc[OF q, of arr]
    unfolding lanes_def Let_def K by simp
  then show ?thesis using reshape_rows_too_big[OF assms(1,4)] by simp
qed

lemma batches_from_unroll:
  assumes "0 < M"
  shows "batches_from arr (n + k * M) M n = map (\<lambda>b. window arr M (n + b * M)) [0..<k]"
proof (induction k arbitrary: n)
  case 0
  show ?case by (simp add: batches_from.simps)
next
  case (Suc k)
  have "batches_from arr (n + Suc k * M) M n
      = window arr M n # batches_from arr ((n + M) + k * M) M (n + M)"
    using assms by (subst batches_from.simps) (simp add: ac_simps)
  also have "\<dots> = window arr M n # map (\<lambda>b. window arr M ((n + M) + b * M)) [0..<k]"
    by (simp only: Suc.IH)
  also have "\<dots> = map (\<lambda>b. window arr M (n + b * M)) [0..<Suc k]"
    by (simp add: upt_rec[of 0 "Suc k"] ac_simps map_Suc_upt[symmetric] del: upt_Suc)
  finally show ?case .
qed


lemma window_rows:
  "window arr M n =
     (map (\<lambda>row. slice row n (n + M)) arr,
      map (\<lambda>row. slice row (n + 1) (n + M + 1)
             @ drop (length (slice row (n + 1) (n + M + 1))) (replicate (length (slice row n (n + M))) 0)) arr)"
  unfolding window_def Let_def
  by (simp add: zip_map_map map_zip_map zip_same_conv_map)

lemma row_x:
  assumes "length r = K * M" "b < K" "j < M"
  shows "length (slice r (b * M) (b * M + M)) = M"
    and "slice r (b * M) (b * M + M) ! j = r ! (b * M + j)"
proof -
  have "Suc b * M \<le> K * M" using assms(2) by (simp add: Suc_leI mult_le_mono1 del: mult_Suc)
  then have le: "b * M + M \<le> length r" using assms(1) by simp
  then show "length (slice r (b * M) (b * M + M)) = M" by (simp add: length_slice)
  from le assms(3) show "slice r (b * M) (b * M + M) ! j = r ! (b * M + j)"
    by (simp add: nth_slice)
qed

lemma row_y:
  fixes r :: "int list"
  assumes "length r = K * M" "b < K" "j < M"
  defines "t \<equiv> slice r (b * M + 1) (b * M + M + 1)"
  shows "length (t @ drop (length t) (replicate M 0)) = M"
    and "(t @ drop (length t) (replicate M 0)) ! j =
           (if b * M + j + 1 < K * M then r ! (b * M + j + 1) else 0)"
proof -
  have "Suc b * M \<le> K * M" using assms(2) by (simp add: Suc_leI mult_le_mono1 del: mult_Suc)
  then have le: "b * M + M \<le> length r" using assms(1) by simp
  have lt: "length t = min M (length r - (b * M + 1))" by (simp add: t_def length_slice)
  then have ltM: "length t \<le> M" by simp
  then show "length (t @ drop (length t) (replicate M 0)) = M" by simp
  show "(t @ drop (length t) (replicate M 0)) ! j =
           (if b * M + j + 1 < K * M then r ! (b * M + j + 1) else 0)"
  proof (cases "b * M + j + 1 < K * M")
    case True
    then have "j < length t" using assms(3) unfolding lt assms(1) by arith
    moreover have "t ! j = r ! (b * M + j + 1)"
      using True assms(1,3) by (simp add: t_def nth_slice ac_simps)
    ultimately show ?thesis using True by (simp add: nth_append)
  next
    case False
    then have "\<not> j < length t" unfolding lt assms(1) by arith
    then show ?thesis using False assms(3) ltM by (simp add: nth_append)
  qed
qed


lemma lane_row:
  assumes "i < N" "N * c \<le> length arr"
  shows "length (slice arr (i * c) (i * c + c)) = c"
    and "m < c \<Longrightarrow> slice arr (i * c) (i * c + c) ! m = arr ! (i * c + m)"
proof -
  have "Suc i * c \<le> N * c" using assms(1) by (simp add: Suc_leI mult_le_mono1 del: mult_Suc)
  then have le: "i * c + c \<le> length arr" using assms(2) by simp
  then show "length (slice arr (i * c) (i * c + c)) = c" by (simp add: length_slice)
  show "slice arr (i * c) (i * c + c) ! m = arr ! (i * c + m)" if "m < c"
    using le that by (simp add: nth_slice)
qed

lemma lanes_fit: "N * (n div (N * M) * M) \<le> (n::nat)"
proof -
  have "N * (n div (N * M) * M) = n div (N * M) * (N * M)"
    by (simp add: ac_simps)
  then show ?thesis by (simp only: div_times_less_eq_dividend)
qed

lemma get_batches_windows:
  fixes arr :: "int list" and N M :: nat
  assumes "0 < N" "0 < M"
    and fit: "1 \<le> length arr div (N * M) \<or> itemsize * int N \<le> intp_max"
  defines "K \<equiv> length arr div (N * M)"
  defines "L \<equiv> map (\<lambda>i. slice arr (i * (K * M)) (i * (K * M) + K * M)) [0..<N]"
  shows "lanes arr (int N) (int M) = Inr L"
    and "get_batches arr (int N) (int M) = Inr (map (\<lambda>b. window L M (b * M)) [0..<K])"
proof -
  show lanes: "lanes arr (int N) (int M) = Inr L"
    unfolding L_def K_def by (rule lanes_eq[OF assms(1,2) fit])
  have "N * (K * M) \<le> length arr" unfolding K_def by (rule lanes_fit)
  then have "length (slice arr (0 * (K * M)) (0 * (K * M) + K * M)) = K * M"
    using assms(1) by (intro lane_row(1)[where N = N])
  moreover have "L = slice arr (0 * (K * M)) (0 * (K * M) + K * M) # map (\<lambda>i. slice arr (i * (K * M)) (i * (K * M) + K * M)) [Suc 0..<N]"
    unfolding L_def using assms(1) by (subst upt_rec) simp
  ultimately have nc: "ncols L = K * M" by (simp add: ncols_def)
  have "batches_from L (0 + K * M) M 0 = map (\<lambda>b. window L M (0 + b * M)) [0..<K]"
    by (rule batches_from_unroll[OF assms(2)])
  then show "get_batches arr (int N) (int M) = Inr (map (\<lambda>b. window L M (b * M)) [0..<K])"
    using assms(2) nc by (simp add: get_batches_def lanes)
qed

lemma get_batches_entries:
  fixes arr :: "int list" and N M :: nat
  assumes "0 < N" "0 < M"
    and fit: "1 \<le> length arr div (N * M) \<or> itemsize * int N \<le> intp_max"
  defines "K \<equiv> length arr div (N * M)"
  shows "\<exists>bs. get_batches arr (int N) (int M) = Inr bs \<and> length bs = K \<and>
    (\<forall>b<K. length (fst (bs ! b)) = N \<and> length (snd (bs ! b)) = N \<and>
      (\<forall>i<N. length (fst (bs ! b) ! i) = M \<and> length (snd (bs ! b) ! i) = M \<and>
        (\<forall>j<M. fst (bs ! b) ! i ! j = arr ! (i * (K * M) + b * M + j) \<and>
               snd (bs ! b) ! i ! j =
                 (if b * M + j + 1 < K * M then arr ! (i * (K * M) + b * M + j + 1) else 0))))"
proof -
  define L where "L = map (\<lambda>i. slice arr (i * (K * M)) (i * (K * M) + K * M)) [0..<N]"
  define bs where "bs = map (\<lambda>b. window L M (b * M)) [0..<K]"
  have gb: "get_batches arr (int N) (int M) = Inr bs"
    unfolding bs_def L_def K_def by (rule get_batches_windows(2)[OF assms(1,2) fit])
  have fits: "N * (K * M) \<le> length arr" unfolding K_def by (rule lanes_fit)
  have "length (fst (bs ! b)) = N \<and> length (snd (bs ! b)) = N \<and>
      (\<forall>i<N. length (fst (bs ! b) ! i) = M \<and> length (snd (bs ! b) ! i) = M \<and>
        (\<forall>j<M. fst (bs ! b) ! i ! j = arr ! (i * (K * M) + b * M + j) \<and>
               snd (bs ! b) ! i ! j =
                 (if b * M + j + 1 < K * M then arr ! (i * (K * M) + b * M + j + 1) else 0)))"
    if b: "b < K" for b
  proof -
    have w: "bs ! b = window L M (b * M)" using b by (simp add: bs_def)
    have lenL: "length L = N" by (simp add: L_def)
    have rows: "length (L ! i) = K * M" "\<And>m. m < K * M \<Longrightarrow> L ! i ! m = arr ! (i * (K * M) + m)"
      if "i < N" for i
      using lane_row[OF that fits] that by (simp_all add: L_def)
    have inner: "length (fst (bs ! b) ! i) = M \<and> length (snd (bs ! b) ! i) = M \<and>
        (\<forall>j<M. fst (bs ! b) ! i ! j = arr ! (i * (K * M) + b * M + j) \<and>
               snd (bs ! b) ! i ! j =
                 (if b * M + j + 1 < K * M then arr ! (i * (K * M) + b * M + j + 1) else 0))"
      if i: "i < N" for i
    proof -
      have fx: "fst (bs ! b) ! i = slice (L ! i) (b * M) (b * M + M)"
        using i lenL by (simp add: w window_rows)
      have lx: "length (slice (L ! i) (b * M) (b * M + M)) = M"
        by (rule row_x(1)[OF rows(1)[OF i] b]) (use assms(2) in simp)
      have fy: "snd (bs ! b) ! i = slice (L ! i) (b * M + 1) (b * M + M + 1)
             @ drop (length (slice (L ! i) (b * M + 1) (b * M + M + 1))) (replicate M 0)"
        using i lenL lx by (simp add: w window_rows)
      have ly: "length (snd (bs ! b) ! i) = M"
        unfolding fy by (rule row_y(1)[OF rows(1)[OF i] b]) (use assms(2) in simp)
      have ent: "fst (bs ! b) ! i ! j = arr ! (i * (K * M) + b * M + j) \<and>
               snd (bs ! b) ! i ! j =
                 (if b * M + j + 1 < K * M then arr ! (i * (K * M) + b * M + j + 1) else 0)"
        if j: "j < M" for j
      proof -
        have "Suc b * M \<le> K * M" using b by (simp add: Suc_leI mult_le_mono1 del: mult_Suc)
        then have bj: "b * M + j < K * M" using j by simp
        have "fst (bs ! b) ! i ! j = L ! i ! (b * M + j)"
          unfolding fx by (rule row_x(2)[OF rows(1)[OF i] b j])
        also have "\<dots> = arr ! (i * (K * M) + (b * M + j))" by (rule rows(2)[OF i bj])
        finally have 1: "fst (bs ! b) ! i ! j = arr ! (i * (K * M) + b * M + j)"
          by (simp add: add.assoc)
        have "snd (bs ! b) ! i ! j = (if b * M + j + 1 < K * M then L ! i ! (b * M + j + 1) else 0)"
          unfolding fy by (rule row_y(2)[OF rows(1)[OF i] b j])
        also have "\<dots> = (if b * M + j + 1 < K * M then arr ! (i * (K * M) + b * M + j + 1) else 0)"
          using rows(2)[OF i, of "b * M + j + 1"] by (simp add: add.assoc)
        finally show ?thesis using 1 by simp
      qed
      have lx': "length (fst (bs ! b) ! i) = M" unfolding fx by (rule lx)
      show ?thesis using lx' ly ent by blast
    qed
    have "length (fst (bs ! b)) = N" "length (snd (bs ! b)) = N"
      using lenL by (simp_all add: w window_rows)
    then show ?thesis using inner by blast
  qed
  moreover have "length bs = K" by (simp add: bs_def)
  ultimately show ?thesis using gb by blast
qed

subsection \<open>Truncation\<close>

lemma lanes_truncate:
  fixes arr :: "int list" and N M :: nat
  assumes "0 < N" "0 < M"
  shows "lanes (take (length arr div (N * M) * (N * M)) arr) (int N) (int M) = lanes arr (int N) (int M)"
proof -
  define K where "K = length arr div (N * M)"
  define xs where "xs = take (K * (N * M)) arr"
  have q: "0 < N * M" using assms by simp
  have "K * (N * M) \<le> length arr" unfolding K_def by simp
  then have len: "length xs = K * (N * M)" by (simp add: xs_def)
  then have K': "length xs div (N * M) = K" using q by simp
  have nz: "int N * int M \<noteq> 0" using assms by simp
  have "lanes xs (int N) (int M) = reshape_rows (take (K * (N * M)) xs) (int N)"
    using nz py_take_trunc[OF q, of xs] unfolding lanes_def Let_def K' by simp
  also have "take (K * (N * M)) xs = xs" using len by simp
  finally have 1: "lanes xs (int N) (int M) = reshape_rows xs (int N)" .
  have 2: "lanes arr (int N) (int M) = reshape_rows xs (int N)"
    using nz py_take_trunc[OF q, of arr] unfolding lanes_def Let_def K_def xs_def by simp
  show ?thesis using 1 2 unfolding xs_def K_def by simp
qed

lemma get_batches_truncate:
  fixes arr :: "int list" and N M :: nat
  assumes "0 < N" "0 < M"
  shows "get_batches (take (length arr div (N * M) * (N * M)) arr) (int N) (int M)
       = get_batches arr (int N) (int M)"
  unfolding get_batches_def lanes_truncate[OF assms] ..

subsection \<open>The lanes\<close>

lemma concat_runs:
  "concat (map (\<lambda>i. slice xs (i * c) (i * c + c)) [0..<N]) = take (N * c) xs"
proof (induction N)
  case 0
  show ?case by simp
next
  case (Suc N)
  have "take (N * c + c) xs = take (N * c) xs @ take c (drop (N * c) xs)"
    by (rule take_add)
  with Suc show ?case by (simp add: slice_def add.commute)
qed

lemma lanes_entries:
  fixes arr :: "int list" and N M :: nat
  assumes "0 < N" "0 < M"
    and fit: "1 \<le> length arr div (N * M) \<or> itemsize * int N \<le> intp_max"
  defines "K \<equiv> length arr div (N * M)"
  shows "\<exists>L. lanes arr (int N) (int M) = Inr L \<and> length L = N \<and>
           concat L = take (K * (N * M)) arr \<and>
           (\<forall>i<N. length (L ! i) = K * M \<and> (\<forall>m<K * M. L ! i ! m = arr ! (i * (K * M) + m)))"
proof -
  define L where "L = map (\<lambda>i. slice arr (i * (K * M)) (i * (K * M) + K * M)) [0..<N]"
  have la: "lanes arr (int N) (int M) = Inr L"
    unfolding L_def K_def by (rule get_batches_windows(1)[OF assms(1,2) fit])
  have fits: "N * (K * M) \<le> length arr" unfolding K_def by (rule lanes_fit)
  have rows: "length (L ! i) = K * M \<and> (\<forall>m<K * M. L ! i ! m = arr ! (i * (K * M) + m))"
    if "i < N" for i
    using lane_row[OF that fits] that by (simp add: L_def)
  have "concat L = take (N * (K * M)) arr" unfolding L_def by (rule concat_runs)
  also have "N * (K * M) = K * (N * M)" by simp
  finally have "concat L = take (K * (N * M)) arr" .
  moreover have "length L = N" by (simp add: L_def)
  ultimately show ?thesis using la rows by blast
qed

subsection \<open>The size limit of the reshape\<close>

lemma get_batches_too_big:
  assumes "0 < N" "0 < M" "length arr < N * M" "intp_max < itemsize * int N"
  shows "get_batches arr (int N) (int M) = Inl ValueError"
  by (simp add: get_batches_def lanes_too_big[OF assms])

text \<open>A call that returns has met the size limit.\<close>

lemma get_batches_returns_fit:
  assumes "0 < N" "0 < M" "get_batches arr (int N) (int M) = Inr bs"
  shows "1 \<le> length arr div (N * M) \<or> itemsize * int N \<le> intp_max"
proof (rule ccontr)
  assume "\<not> (1 \<le> length arr div (N * M) \<or> itemsize * int N \<le> intp_max)"
  then have K: "length arr div (N * M) = 0" and big: "intp_max < itemsize * int N" by simp_all
  have "0 < N * M" using assms(1,2) by simp
  with K have "length arr < N * M" by (simp add: div_eq_0_iff)
  from get_batches_too_big[OF assms(1,2) this big] assms(3) show False by simp
qed


section \<open>Claims about the batch generator\<close>

text \<open>
  In the theorems of this section the batch size \<open>N\<close> and the window width \<open>M\<close> are
  natural numbers, handed to \<open>get_batches\<close> as the integers \<open>int N\<close> and \<open>int M\<close>.
\<close>

text \<open>
  C1. For every sequence \<open>arr\<close> and integers \<open>N \<ge> 1\<close>, \<open>M \<ge> 1\<close> with \<open>N * M \<le> len(arr)\<close>,
  \<open>get_batches\<close> returns without an exception, yields exactly \<open>len(arr) div (N * M)\<close>
  batches, and every batch is a pair of two-dimensional blocks of shape \<open>(N, M)\<close>.
\<close>

theorem get_batches_count_shape:
  fixes arr :: "int list" and N M :: nat
  assumes "1 \<le> N" "1 \<le> M" "N * M \<le> length arr"
  shows "\<exists>bs. get_batches arr (int N) (int M) = Inr bs \<and>
           length bs = length arr div (N * M) \<and>
           (\<forall>(x, y) \<in> set bs. has_shape N M x \<and> has_shape N M y)"
proof -
  define K where "K = length arr div (N * M)"
  have "0 < N * M" using assms(1,2) by simp
  then have fit: "1 \<le> length arr div (N * M) \<or> itemsize * int N \<le> intp_max"
    using assms(3) by (simp add: Suc_le_eq div_greater_zero_iff)
  have pos: "0 < N" "0 < M" using assms(1,2) by simp_all
  from get_batches_entries[OF pos fit]
  obtain bs where gb: "get_batches arr (int N) (int M) = Inr bs" and len: "length bs = K"
    and ent: "\<And>b. b < K \<Longrightarrow> length (fst (bs ! b)) = N \<and> length (snd (bs ! b)) = N \<and>
      (\<forall>i<N. length (fst (bs ! b) ! i) = M \<and> length (snd (bs ! b) ! i) = M)"
    unfolding K_def by force
  have "has_shape N M x \<and> has_shape N M y" if "(x, y) \<in> set bs" for x y
  proof -
    from that len obtain b where b: "b < K" "bs ! b = (x, y)"
      by (auto simp: in_set_conv_nth)
    from ent[OF b(1)] b(2) show ?thesis
      by (auto simp: has_shape_def in_set_conv_nth)
  qed
  then show ?thesis using gb len unfolding K_def by blast
qed

theorem get_batches_count_shape_witness:
  "(1::nat) \<le> 2 \<and> (1::nat) \<le> 3 \<and> 2 * 3 \<le> length [5, 6, 7, 8, 9, 10, 11, 12, 13, 14, 15, 16, 17 :: int] \<and>
   (\<exists>bs. get_batches [5, 6, 7, 8, 9, 10, 11, 12, 13, 14, 15, 16, 17] (int 2) (int 3) = Inr bs \<and>
      length bs = 2 \<and> (\<forall>(x, y) \<in> set bs. has_shape 2 3 x \<and> has_shape 2 3 y))"
  using get_batches_count_shape[of 2 3 "[5, 6, 7, 8, 9, 10, 11, 12, 13, 14, 15, 16, 17]"]
  by simp

text \<open>
  C2. Let \<open>bs\<close> be the batches of \<open>get_batches\<close> and \<open>L\<close> the lanes. For every batch
  \<open>b\<close>, lane \<open>i < N\<close> and column \<open>j < M\<close>: the input entry is the lane's symbol at
  \<open>b * M + j\<close>, and the target entry is the symbol that follows it in the lane, or zero
  where the lane has no following symbol. So the target is the input shifted by one
  inside a window (\<open>target[i][j] = input[i][j+1]\<close> for \<open>j < M - 1\<close>), the last target
  column of a window that is not the last equals the first input column of the next
  window, and the last target column of the last window is zero.
\<close>

theorem get_batches_target_shift:
  fixes arr :: "int list" and N M :: nat
  assumes "1 \<le> N" "1 \<le> M"
    and gb: "get_batches arr (int N) (int M) = Inr bs"
    and la: "lanes arr (int N) (int M) = Inr L"
    and b: "b < length bs" and i: "i < N" and j: "j < M"
  shows "fst (bs ! b) ! i ! j = L ! i ! (b * M + j) \<and>
         (if b * M + j + 1 < length (L ! i)
          then snd (bs ! b) ! i ! j = L ! i ! (b * M + j + 1)
          else snd (bs ! b) ! i ! j = 0) \<and>
         (j + 1 < M \<longrightarrow> snd (bs ! b) ! i ! j = fst (bs ! b) ! i ! (j + 1)) \<and>
         (b + 1 < length bs \<longrightarrow> snd (bs ! b) ! i ! (M - 1) = fst (bs ! (b + 1)) ! i ! 0) \<and>
         (b + 1 = length bs \<longrightarrow> snd (bs ! b) ! i ! (M - 1) = 0)"
proof -
  define K where "K = length arr div (N * M)"
  have pos: "0 < N" "0 < M" using assms(1,2) by simp_all
  have fit: "1 \<le> length arr div (N * M) \<or> itemsize * int N \<le> intp_max"
    by (rule get_batches_returns_fit[OF pos gb])
  from get_batches_entries[OF pos fit] gb
  have len: "length bs = K"
    and ent: "\<And>b i j. b < K \<Longrightarrow> i < N \<Longrightarrow> j < M \<Longrightarrow>
        fst (bs ! b) ! i ! j = arr ! (i * (K * M) + b * M + j) \<and>
        snd (bs ! b) ! i ! j =
          (if b * M + j + 1 < K * M then arr ! (i * (K * M) + b * M + j + 1) else 0)"
    unfolding K_def by auto
  from lanes_entries[OF pos fit] la
  have row: "length (L ! i) = K * M" "\<And>m. m < K * M \<Longrightarrow> L ! i ! m = arr ! (i * (K * M) + m)"
    using i unfolding K_def by auto
  have bK: "b < K" using b len by simp
  have "Suc b * M \<le> K * M" using bK by (simp add: Suc_leI mult_le_mono1 del: mult_Suc)
  then have top: "b * M + M \<le> K * M" by simp
  then have bj: "b * M + j < K * M" using j by simp
  note e = ent[OF bK i j]
  have 1: "fst (bs ! b) ! i ! j = L ! i ! (b * M + j)"
    using e row(2)[OF bj] by (simp add: add.assoc)
  have 2: "if b * M + j + 1 < length (L ! i)
          then snd (bs ! b) ! i ! j = L ! i ! (b * M + j + 1)
          else snd (bs ! b) ! i ! j = 0"
    using e row(2)[of "b * M + j + 1"] by (simp add: row(1) add.assoc)
  have 3: "snd (bs ! b) ! i ! j = fst (bs ! b) ! i ! (j + 1)" if "j + 1 < M"
  proof -
    have "b * M + j + 1 < K * M" using that top by simp
    then show ?thesis using e ent[OF bK i that] by (simp add: add.assoc)
  qed
  have M1: "M - 1 < M" using pos(2) by simp
  note eM = ent[OF bK i M1]
  have 4: "snd (bs ! b) ! i ! (M - 1) = fst (bs ! (b + 1)) ! i ! 0" if "b + 1 < length bs"
  proof -
    have b1: "b + 1 < K" using that len by simp
    then have "Suc (b + 1) * M \<le> K * M" by (simp add: Suc_leI mult_le_mono1 del: mult_Suc)
    then have "b * M + (M - 1) + 1 < K * M" using pos(2) by simp
    moreover have "b * M + (M - 1) + 1 = (b + 1) * M" using pos(2) by simp
    ultimately have "snd (bs ! b) ! i ! (M - 1) = arr ! (i * (K * M) + (b + 1) * M)"
      using eM by (simp add: ac_simps)
    moreover have "fst (bs ! (b + 1)) ! i ! 0 = arr ! (i * (K * M) + (b + 1) * M)"
      using ent[OF b1 i pos(2)] by simp
    ultimately show ?thesis by simp
  qed
  have 5: "snd (bs ! b) ! i ! (M - 1) = 0" if "b + 1 = length bs"
  proof -
    have "b * M + (M - 1) + 1 = (b + 1) * M" using pos(2) by simp
    also have "\<dots> = K * M" using that len by simp
    finally have "\<not> b * M + (M - 1) + 1 < K * M" by simp
    then show ?thesis using eM by simp
  qed
  show ?thesis using 1 2 3 4 5 by blast
qed

theorem get_batches_target_shift_witness:
  "(1::nat) \<le> 2 \<and> (1::nat) \<le> 3 \<and>
   get_batches [5, 6, 7, 8, 9, 10, 11, 12, 13, 14, 15, 16, 17] (int 2) (int 3) =
     Inr [([[5, 6, 7], [11, 12, 13]], [[6, 7, 8], [12, 13, 14]]),
          ([[8, 9, 10], [14, 15, 16]], [[9, 10, 0], [15, 16, 0]])] \<and>
   lanes [5, 6, 7, 8, 9, 10, 11, 12, 13, 14, 15, 16, 17] (int 2) (int 3) =
     Inr [[5, 6, 7, 8, 9, 10], [11, 12, 13, 14, 15, 16]] \<and>
   (0::nat) < length [([[5, 6, 7], [11, 12, 13]], [[6, 7, 8], [12, 13, 14]]),
          ([[8, 9, 10], [14, 15, 16]], [[9, 10, 0::int], [15, 16, 0]])] \<and>
   (1::nat) < 2 \<and> (2::nat) < 3 \<and>
   snd ([([[5, 6, 7], [11, 12, 13]], [[6, 7, 8], [12, 13, 14]]),
          ([[8, 9, 10], [14, 15, 16]], [[9, 10, 0], [15, 16, 0::int]])] ! 0) ! 1 ! 2 =
   fst ([([[5, 6, 7], [11, 12, 13]], [[6, 7, 8], [12, 13, 14]]),
          ([[8, 9, 10], [14, 15, 16]], [[9, 10, 0], [15, 16, 0::int]])] ! (0 + 1)) ! 1 ! 0"
proof -
  have gb: "get_batches [5, 6, 7, 8, 9, 10, 11, 12, 13, 14, 15, 16, 17] (int 2) (int 3) =
     Inr [([[5, 6, 7], [11, 12, 13]], [[6, 7, 8], [12, 13, 14]]),
          ([[8, 9, 10], [14, 15, 16]], [[9, 10, 0], [15, 16, 0]])]"
    by (simp add: get_batches_def lanes_def py_take_def slice_stop_def reshape_rows_def
        slice_def ncols_def batches_from.simps window_def upt_rec)
  have la: "lanes [5, 6, 7, 8, 9, 10, 11, 12, 13, 14, 15, 16, 17] (int 2) (int 3) =
     Inr [[5, 6, 7, 8, 9, 10], [11, 12, 13, 14, 15, 16]]"
    by (simp add: lanes_def py_take_def slice_stop_def reshape_rows_def slice_def upt_rec)
  show ?thesis
    using get_batches_target_shift[OF _ _ gb la, of 0 1 2] gb la by simp
qed



text \<open>
  C4. Truncation law. Let \<open>len(arr) = N * M * K + r\<close> with \<open>0 < r < N * M\<close>. The outcome
  of \<open>get_batches\<close> does not depend on the last \<open>r\<close> elements: replacing them by any
  \<open>tail\<close> shorter than \<open>N * M\<close> gives the same outcome. The call returns when \<open>K \<ge> 1\<close>, and
  for \<open>K = 0\<close> when the reshape meets its size limit. Whenever it returns, there are \<open>K\<close>
  batches, every input entry is an element of \<open>arr\<close> at a position before \<open>N * M * K\<close>,
  and every target entry is such an element or the zero that fills the last column of
  the last window.
\<close>

theorem get_batches_drops_remainder:
  fixes arr tail :: "int list" and N M K r :: nat
  assumes "1 \<le> N" "1 \<le> M" and len: "length arr = N * M * K + r" and r: "0 < r" "r < N * M"
    and tail: "length tail < N * M"
  shows "get_batches (take (N * M * K) arr @ tail) (int N) (int M) = get_batches arr (int N) (int M) \<and>
         (1 \<le> K \<or> itemsize * int N \<le> intp_max \<longrightarrow>
            (\<exists>bs. get_batches arr (int N) (int M) = Inr bs)) \<and>
         (\<forall>bs. get_batches arr (int N) (int M) = Inr bs \<longrightarrow>
            length bs = K \<and>
            (\<forall>b<K. \<forall>i<N. \<forall>j<M.
               (\<exists>p<N * M * K. fst (bs ! b) ! i ! j = arr ! p) \<and>
               ((\<exists>p<N * M * K. snd (bs ! b) ! i ! j = arr ! p) \<or>
                (b + 1 = K \<and> j + 1 = M \<and> snd (bs ! b) ! i ! j = 0))))"
proof -
  have pos: "0 < N" "0 < M" using assms(1,2) by simp_all
  then have q: "0 < N * M" by simp
  define xs where "xs = take (N * M * K) arr"
  have lxs: "length xs = N * M * K" by (simp add: xs_def len)
  have K: "length arr div (N * M) = K" using q r(2) by (simp add: len)
  have K': "length (xs @ tail) div (N * M) = K" using q tail by (simp add: lxs)
  have "get_batches arr (int N) (int M) = get_batches (take (K * (N * M)) arr) (int N) (int M)"
    using get_batches_truncate[OF pos, of arr] by (simp add: K)
  also have "take (K * (N * M)) arr = xs" by (simp add: xs_def mult.commute)
  finally have 1: "get_batches arr (int N) (int M) = get_batches xs (int N) (int M)" .
  have "get_batches (xs @ tail) (int N) (int M)
      = get_batches (take (K * (N * M)) (xs @ tail)) (int N) (int M)"
    using get_batches_truncate[OF pos, of "xs @ tail"] by (simp only: K')
  also have "take (K * (N * M)) (xs @ tail) = xs" by (simp add: lxs mult.commute)
  finally have 2: "get_batches (xs @ tail) (int N) (int M) = get_batches xs (int N) (int M)" .
  have ret: "\<exists>bs. get_batches arr (int N) (int M) = Inr bs"
    if "1 \<le> K \<or> itemsize * int N \<le> intp_max"
  proof -
    from that have "1 \<le> length arr div (N * M) \<or> itemsize * int N \<le> intp_max"
      by (simp only: K)
    from get_batches_entries[OF pos this] show ?thesis by blast
  qed
  have pt: "length bs = K \<and>
            (\<forall>b<K. \<forall>i<N. \<forall>j<M.
               (\<exists>p<N * M * K. fst (bs ! b) ! i ! j = arr ! p) \<and>
               ((\<exists>p<N * M * K. snd (bs ! b) ! i ! j = arr ! p) \<or>
                (b + 1 = K \<and> j + 1 = M \<and> snd (bs ! b) ! i ! j = 0)))"
    if gb: "get_batches arr (int N) (int M) = Inr bs" for bs
  proof -
    have fit: "1 \<le> length arr div (N * M) \<or> itemsize * int N \<le> intp_max"
      by (rule get_batches_returns_fit[OF pos gb])
    from get_batches_entries[OF pos fit] gb
    have lbs: "length bs = K"
      and ent: "\<And>b i j. b < K \<Longrightarrow> i < N \<Longrightarrow> j < M \<Longrightarrow>
        fst (bs ! b) ! i ! j = arr ! (i * (K * M) + b * M + j) \<and>
        snd (bs ! b) ! i ! j =
          (if b * M + j + 1 < K * M then arr ! (i * (K * M) + b * M + j + 1) else 0)"
      unfolding K by auto
    have "(\<exists>p<N * M * K. fst (bs ! b) ! i ! j = arr ! p) \<and>
               ((\<exists>p<N * M * K. snd (bs ! b) ! i ! j = arr ! p) \<or>
                (b + 1 = K \<and> j + 1 = M \<and> snd (bs ! b) ! i ! j = 0))"
      if b: "b < K" and i: "i < N" and j: "j < M" for b i j
    proof -
      have "Suc b * M \<le> K * M" using b by (simp add: Suc_leI mult_le_mono1 del: mult_Suc)
      then have top: "b * M + M \<le> K * M" by simp
      have "Suc i * (K * M) \<le> N * (K * M)" using i by (simp add: Suc_leI mult_le_mono1 del: mult_Suc)
      moreover have "Suc i * (K * M) = i * (K * M) + K * M" by simp
      moreover have "N * (K * M) = N * M * K" by simp
      ultimately have lane: "i * (K * M) + K * M \<le> N * M * K" by (simp only:)
      have p: "i * (K * M) + b * M + j < N * M * K" using lane top j by linarith
      note e = ent[OF b i j]
      from e p have A: "\<exists>p<N * M * K. fst (bs ! b) ! i ! j = arr ! p" by blast
      have B: "(\<exists>p<N * M * K. snd (bs ! b) ! i ! j = arr ! p) \<or>
                (b + 1 = K \<and> j + 1 = M \<and> snd (bs ! b) ! i ! j = 0)"
      proof (cases "b * M + j + 1 < K * M")
        case True
        then have "i * (K * M) + b * M + j + 1 < N * M * K" using lane by linarith
        moreover have "snd (bs ! b) ! i ! j = arr ! (i * (K * M) + b * M + j + 1)"
          using e True by simp
        ultimately show ?thesis by blast
      next
        case False
        then have eq: "b * M + j + 1 = K * M" using top j by linarith
        have "j + 1 = M"
        proof (rule ccontr)
          assume "j + 1 \<noteq> M"
          then have "j + 1 < M" using j by simp
          then show False using top eq by linarith
        qed
        moreover from this eq have "(b + 1) * M = K * M" by simp
        then have "b + 1 = K \<or> M = 0" by (simp only: mult_cancel2)
        then have "b + 1 = K" using pos(2) by simp
        moreover have "snd (bs ! b) ! i ! j = 0" using e False by simp
        ultimately show ?thesis by blast
      qed
      from A B show ?thesis ..
    qed
    with lbs show ?thesis by blast
  qed
  show ?thesis
  proof (intro conjI)
    show "get_batches (take (N * M * K) arr @ tail) (int N) (int M) = get_batches arr (int N) (int M)"
      using 1 2 by (simp add: xs_def)
    show "1 \<le> K \<or> itemsize * int N \<le> intp_max \<longrightarrow>
            (\<exists>bs. get_batches arr (int N) (int M) = Inr bs)"
      using ret by blast
    show "\<forall>bs. get_batches arr (int N) (int M) = Inr bs \<longrightarrow>
            length bs = K \<and>
            (\<forall>b<K. \<forall>i<N. \<forall>j<M.
               (\<exists>p<N * M * K. fst (bs ! b) ! i ! j = arr ! p) \<and>
               ((\<exists>p<N * M * K. snd (bs ! b) ! i ! j = arr ! p) \<or>
                (b + 1 = K \<and> j + 1 = M \<and> snd (bs ! b) ! i ! j = 0)))"
      using pt by blast
  qed
qed

theorem get_batches_drops_remainder_witness:
  "(1::nat) \<le> 2 \<and> (1::nat) \<le> 3 \<and>
   length [5, 6, 7, 8, 9, 10, 11, 12, 13, 14, 15, 16, 17 :: int] = 2 * 3 * 2 + 1 \<and>
   (0::nat) < 1 \<and> (1::nat) < 2 * 3 \<and> length [99, 98, 97 :: int] < 2 * 3 \<and>
   get_batches ([5, 6, 7, 8, 9, 10, 11, 12, 13, 14, 15, 16] @ [99, 98, 97]) (int 2) (int 3) =
     get_batches [5, 6, 7, 8, 9, 10, 11, 12, 13, 14, 15, 16, 17] (int 2) (int 3) \<and>
   (\<exists>bs. get_batches [5, 6, 7, 8, 9, 10, 11, 12, 13, 14, 15, 16, 17] (int 2) (int 3) = Inr bs)"
  using get_batches_drops_remainder[of 2 3 "[5, 6, 7, 8, 9, 10, 11, 12, 13, 14, 15, 16, 17]" 2 1 "[99, 98, 97]"]
  by simp

text \<open>
  C5. When \<open>len(arr) < N * M\<close>, so that \<open>n_batches\<close> is zero, the truncation leaves no
  element and the lanes are \<open>N\<close> empty rows. \<open>get_batches\<close> then degenerates to the empty
  sequence of batches, the loop not running, unless the reshape into \<open>N\<close> rows exceeds
  its size limit (\<open>N \<ge> 2^61\<close> for the four-byte items of the corpus), where the call
  fails with the \<open>ValueError\<close> of the reshape. (\<open>len(arr) < N * M\<close> makes both \<open>N\<close> and \<open>M\<close>
  positive.)
\<close>

theorem get_batches_insufficient:
  fixes arr :: "int list" and N M :: nat
  assumes "length arr < N * M"
  shows "get_batches arr (int N) (int M) =
           (if itemsize * int N \<le> intp_max then Inr [] else Inl ValueError)"
proof (cases "itemsize * int N \<le> intp_max")
  case True
  have pos: "0 < N" "0 < M" using assms by (cases N; cases M; simp)+
  have K: "length arr div (N * M) = 0" using assms by simp
  have "1 \<le> length arr div (N * M) \<or> itemsize * int N \<le> intp_max" using True by simp
  from get_batches_windows(2)[OF pos this] K True show ?thesis by simp
next
  case False
  have pos: "0 < N" "0 < M" using assms by (cases N; cases M; simp)+
  from False have "intp_max < itemsize * int N" by simp
  from get_batches_too_big[OF pos assms this] False show ?thesis by simp
qed

theorem get_batches_insufficient_witness:
  "length [1, 2, 3 :: int] < 2 * 5 \<and> get_batches [1, 2, 3] (int 2) (int 5) = Inr [] \<and>
   length [1, 2, 3 :: int] < 2 ^ 61 * 1 \<and>
   get_batches [1, 2, 3] (int (2 ^ 61)) (int 1) = Inl ValueError"
  using get_batches_insufficient[of "[1, 2, 3]" 2 5]
    get_batches_insufficient[of "[1, 2, 3]" "2 ^ 61" 1]
  by (simp add: itemsize_def intp_max_def)

section \<open>Properties of the constrained sampler\<close>

subsection \<open>Clearing entries\<close>

lemma length_zero_at: "length (zero_at idx p) = length p"
proof -
  have "length (fold (\<lambda>i q. q[i := 0::real]) idx p) = length p"
    by (induction idx arbitrary: p) simp_all
  then show ?thesis by (simp add: zero_at_def)
qed

lemma nth_zero_at:
  "i < length p \<Longrightarrow> zero_at idx p ! i = (if i \<in> set idx then 0 else p ! i)"
proof -
  have "i < length p \<Longrightarrow> fold (\<lambda>i q. q[i := 0::real]) idx p ! i = (if i \<in> set idx then 0 else p ! i)"
  proof (induction idx arbitrary: p)
    case Nil
    show ?case by simp
  next
    case (Cons k idx)
    have "i < length (p[k := 0])" using Cons.prems by simp
    from Cons.IH[OF this] Cons.prems show ?case
      by (auto simp: nth_list_update)
  qed
  then show "i < length p \<Longrightarrow> zero_at idx p ! i = (if i \<in> set idx then 0 else p ! i)"
    by (simp add: zero_at_def)
qed

lemma zero_at_Nil: "zero_at [] p = p"
  by (simp add: zero_at_def)

lemma is_argsort_length: "is_argsort p idx \<Longrightarrow> length idx = length p"
  unfolding is_argsort_def using distinct_card[of idx] by auto

lemma stable_argsort_is_argsort: "is_argsort p (stable_argsort p)"
  by (simp add: is_argsort_def stable_argsort_def atLeast0LessThan)

lemma length_keep_top:
  "length (keep_top argsort p k) = length p"
  by (simp add: keep_top_def length_zero_at)

lemma nth_keep_top:
  assumes "is_argsort p (argsort p)" "i < length p"
  shows "keep_top argsort p k ! i =
           (if i \<in> set (take (slice_stop (length p) (- k)) (argsort p)) then 0 else p ! i)"
  using assms(2) is_argsort_length[OF assms(1)]
  by (simp add: keep_top_def py_take_def nth_zero_at)

lemma keep_top_nothing:
  assumes "is_argsort p (argsort p)" "k = 0 \<or> int (length p) \<le> k"
  shows "keep_top argsort p k = p"
proof -
  have "slice_stop (length (argsort p)) (- k) = 0"
    using assms(2) is_argsort_length[OF assms(1)] by (auto simp: slice_stop_def)
  then show ?thesis by (simp add: keep_top_def py_take_def zero_at_Nil)
qed

lemma slice_stop_in_range:
  "1 \<le> k \<Longrightarrow> k \<le> int V \<Longrightarrow> slice_stop V (- k) = V - nat k"
  by (auto simp: slice_stop_def)

text \<open>An entry that the argsort keeps past position \<open>n\<close> has fewer than \<open>V - n\<close> entries above it.\<close>

lemma kept_is_top:
  assumes arg: "is_argsort p idx" and c: "c < length p" and kept: "c \<notin> set (take n idx)"
  shows "card {j. j < length p \<and> p ! c < p ! j} < length p - n"
proof -
  let ?V = "length p"
  have len: "length idx = ?V" by (rule is_argsort_length[OF arg])
  have set: "set idx = {..<?V}" and srt: "sorted (map (\<lambda>i. p ! i) idx)"
    using arg by (simp_all add: is_argsort_def)
  from c set obtain m where m: "m < ?V" "idx ! m = c"
    using len by (metis in_set_conv_nth lessThan_iff)
  have nm: "n \<le> m"
  proof (rule ccontr)
    assume "\<not> n \<le> m"
    then have "m < n" by simp
    then have "idx ! m \<in> set (take n idx)" using m(1) len by (auto simp: in_set_conv_nth)
    then show False using kept m(2) by simp
  qed
  have sub: "{j. j < ?V \<and> p ! c < p ! j} \<subseteq> (\<lambda>t. idx ! t) ` {m<..<?V}"
  proof
    fix j assume "j \<in> {j. j < ?V \<and> p ! c < p ! j}"
    then have j: "j < ?V" "p ! c < p ! j" by simp_all
    from j(1) set obtain t where t: "t < ?V" "idx ! t = j"
      using len by (metis in_set_conv_nth lessThan_iff)
    have "m < t"
    proof (rule ccontr)
      assume "\<not> m < t"
      then have "t \<le> m" by simp
      then have "map (\<lambda>i. p ! i) idx ! t \<le> map (\<lambda>i. p ! i) idx ! m"
        using srt m(1) len by (intro sorted_nth_mono) simp_all
      then have "p ! j \<le> p ! c" using t m len by simp
      then show False using j(2) by simp
    qed
    then show "j \<in> (\<lambda>t. idx ! t) ` {m<..<?V}" using t by auto
  qed
  have "card {j. j < ?V \<and> p ! c < p ! j} \<le> card ((\<lambda>t. idx ! t) ` {m<..<?V})"
    by (rule card_mono[OF _ sub]) simp
  also have "\<dots> \<le> card {m<..<?V}" by (rule card_image_le) simp
  also have "\<dots> = ?V - m - 1" by simp
  also have "\<dots> < ?V - n" using nm m(1) by simp
  finally show ?thesis .
qed

text \<open>An entry that the argsort clears is no larger than any entry it keeps.\<close>

lemma cleared_below_kept:
  assumes arg: "is_argsort p idx" and i: "i \<in> set (take n idx)"
    and j: "j < length p" "j \<notin> set (take n idx)"
  shows "p ! i \<le> p ! j"
proof -
  let ?V = "length p"
  have len: "length idx = ?V" by (rule is_argsort_length[OF arg])
  have set: "set idx = {..<?V}" and srt: "sorted (map (\<lambda>i. p ! i) idx)"
    using arg by (simp_all add: is_argsort_def)
  from i obtain s where s: "s < n" "s < ?V" "idx ! s = i"
    using len by (auto simp: in_set_conv_nth)
  from j(1) set obtain t where t: "t < ?V" "idx ! t = j"
    using len by (metis in_set_conv_nth lessThan_iff)
  have "n \<le> t"
  proof (rule ccontr)
    assume "\<not> n \<le> t"
    then have "idx ! t \<in> set (take n idx)" using t(1) len by (auto simp: in_set_conv_nth)
    then show False using j(2) t(2) by simp
  qed
  then have "s \<le> t" using s(1) by simp
  then have "map (\<lambda>i. p ! i) idx ! s \<le> map (\<lambda>i. p ! i) idx ! t"
    using srt t(1) len by (intro sorted_nth_mono) simp_all
  then show ?thesis using s t len by simp
qed

text \<open>The only entry above all others is among the entries kept, whenever one is kept.\<close>

lemma strict_max_kept:
  assumes arg: "is_argsort p idx" and h: "h < length p"
    and mx: "\<forall>i<length p. i \<noteq> h \<longrightarrow> p ! i < p ! h" and n: "n < length p"
  shows "h \<notin> set (take n idx)"
proof
  assume "h \<in> set (take n idx)"
  have len: "length idx = length p" by (rule is_argsort_length[OF arg])
  have dist: "distinct idx" and set: "set idx = {..<length p}"
    using arg by (simp_all add: is_argsort_def)
  define j where "j = idx ! n"
  have jn: "j \<in> set idx" using n len by (simp add: j_def)
  then have jV: "j < length p" using set by simp
  have "j \<notin> set (take n idx)"
  proof
    assume "j \<in> set (take n idx)"
    then obtain s where s: "s < n" "idx ! s = j" using n len by (auto simp: in_set_conv_nth)
    then have "idx ! s = idx ! n" by (simp add: j_def)
    then have "s = n" using dist s(1) n len by (simp add: nth_eq_iff_index_eq)
    then show False using s(1) by simp
  qed
  with \<open>h \<in> set (take n idx)\<close> have "p ! h \<le> p ! j" and "j \<noteq> h"
    using cleared_below_kept[OF arg _ jV] by auto
  then show False using mx jV by fastforce
qed

text \<open>
  The kept mass of a vector with non-negative entries and a positive sum is positive
  whenever at least one entry is kept: the largest entry is kept.
\<close>

lemma kept_mass_positive:
  assumes arg: "is_argsort p idx" and nonneg: "\<forall>x \<in> set p. 0 \<le> x"
    and total: "sum_list p \<noteq> 0" and n: "n < length p"
  shows "sum_list (zero_at (take n idx) p) \<noteq> 0"
proof -
  let ?V = "length p"
  let ?q = "zero_at (take n idx) p"
  have len: "length idx = ?V" by (rule is_argsort_length[OF arg])
  have dist: "distinct idx" and set: "set idx = {..<?V}"
    using arg by (simp_all add: is_argsort_def)
  define m where "m = idx ! (?V - 1)"
  have "m \<in> set idx" using n len by (simp add: m_def)
  then have mV: "m < ?V" using set by simp
  have kept: "m \<notin> set (take n idx)"
  proof
    assume "m \<in> set (take n idx)"
    then obtain s where s: "s < n" "idx ! s = m" using n len by (auto simp: in_set_conv_nth)
    then have "s = ?V - 1" using dist n len by (simp add: m_def nth_eq_iff_index_eq)
    then show False using s(1) n by simp
  qed
  from total nonneg obtain x where x: "x \<in> set p" "x \<noteq> 0"
    by (auto simp: sum_list_nonneg_eq_0_iff)
  then obtain j where j: "j < ?V" "p ! j = x" by (auto simp: in_set_conv_nth)
  have "0 \<le> x" using x(1) nonneg by blast
  then have "0 < p ! j" using x(2) j(2) by simp
  moreover have "p ! j \<le> p ! m"
  proof (cases "j \<in> set (take n idx)")
    case True
    then show ?thesis by (rule cleared_below_kept[OF arg _ mV kept])
  next
    case False
    from j(1) set obtain t where t: "t < ?V" "idx ! t = j"
      using len by (metis in_set_conv_nth lessThan_iff)
    have "sorted (map (\<lambda>i. p ! i) idx)" using arg by (simp add: is_argsort_def)
    then have "map (\<lambda>i. p ! i) idx ! t \<le> map (\<lambda>i. p ! i) idx ! (?V - 1)"
      using t(1) len by (intro sorted_nth_mono) simp_all
    then show ?thesis using t len n by (simp add: m_def)
  qed
  ultimately have "0 < p ! m" by simp
  then have "?q ! m \<noteq> 0" using kept mV by (simp add: nth_zero_at)
  moreover have "?q ! m \<in> set ?q" using mV by (simp add: length_zero_at)
  moreover have "\<forall>x \<in> set ?q. 0 \<le> x"
  proof -
    have "0 \<le> ?q ! i" if "i < ?V" for i using that nonneg by (simp add: nth_zero_at)
    then show ?thesis by (auto simp: in_set_conv_nth length_zero_at)
  qed
  ultimately show ?thesis by (auto simp: sum_list_nonneg_eq_0_iff)
qed

subsection \<open>Renormalizing and drawing\<close>

lemma length_cumsum_from: "length (cumsum_from acc xs) = length xs"
  by (induction xs arbitrary: acc) simp_all

lemma nth_cumsum_from:
  "i < length xs \<Longrightarrow> cumsum_from acc xs ! i = acc + sum_list (take (Suc i) xs)"
proof (induction xs arbitrary: acc i)
  case Nil
  then show ?case by simp
next
  case (Cons x xs)
  show ?case
  proof (cases i)
    case 0
    then show ?thesis by simp
  next
    case (Suc k)
    with Cons.prems have "k < length xs" by simp
    from Cons.IH[OF this, of "acc + x"] Suc show ?thesis by (simp add: add.assoc)
  qed
qed

lemma last_cumsum_from: "xs \<noteq> [] \<Longrightarrow> last (cumsum_from acc xs) = acc + sum_list xs"
proof -
  assume ne: "xs \<noteq> []"
  then have "cumsum_from acc xs \<noteq> []" by (cases xs) simp_all
  then have "last (cumsum_from acc xs) = cumsum_from acc xs ! (length xs - 1)"
    by (simp add: last_conv_nth length_cumsum_from)
  also have "\<dots> = acc + sum_list (take (Suc (length xs - 1)) xs)"
    using ne by (intro nth_cumsum_from) simp
  also have "Suc (length xs - 1) = length xs" using ne by simp
  finally show ?thesis by simp
qed

lemma sum_list_take_Suc:
  "i < length xs \<Longrightarrow> sum_list (take (Suc i) xs) = sum_list (take i xs) + (xs ! i :: real)"
  by (simp add: take_Suc_conv_app_nth)

text \<open>The index drawn has a positive weight.\<close>

lemma searchsorted_positive:
  fixes p :: "real list"
  assumes nonneg: "\<forall>x \<in> set p. 0 \<le> x" and S: "0 < sum_list p" and u: "0 \<le> u" "u < 1"
  defines "cdf1 \<equiv> map (\<lambda>c. c / last (cumsum_from 0 p)) (cumsum_from 0 p)"
  defines "c \<equiv> length (takeWhile (\<lambda>c. c \<le> u) cdf1)"
  shows "c < length p \<and> 0 < p ! c"
proof -
  have ne: "p \<noteq> []" using S by auto
  have last: "last (cumsum_from 0 p) = sum_list p" using last_cumsum_from[OF ne, of 0] by simp
  have len: "length cdf1 = length p" by (simp add: cdf1_def length_cumsum_from)
  have nth: "cdf1 ! i = sum_list (take (Suc i) p) / sum_list p" if "i < length p" for i
    using that by (simp add: cdf1_def last length_cumsum_from nth_cumsum_from)
  have lt: "c < length p"
  proof (rule ccontr)
    assume "\<not> c < length p"
    moreover have "c \<le> length cdf1" unfolding c_def by (rule length_takeWhile_le)
    ultimately have "c = length cdf1" using len by simp
    then have "takeWhile (\<lambda>c. c \<le> u) cdf1 = cdf1"
      unfolding c_def using takeWhile_eq_take[of "\<lambda>c. c \<le> u" cdf1] by simp
    then have all: "\<forall>x \<in> set cdf1. x \<le> u" by simp
    have "cdf1 ! (length p - 1) \<in> set cdf1" using ne len by simp
    moreover have "cdf1 ! (length p - 1) = 1" using ne S by (simp add: nth)
    ultimately show False using all u(2) by auto
  qed
  have above: "\<not> cdf1 ! c \<le> u"
    unfolding c_def by (rule nth_length_takeWhile) (use lt len c_def in simp)
  have below: "cdf1 ! i \<le> u" if "i < c" for i
  proof -
    have "takeWhile (\<lambda>c. c \<le> u) cdf1 ! i \<in> set (takeWhile (\<lambda>c. c \<le> u) cdf1)"
      using that unfolding c_def by simp
    then have "takeWhile (\<lambda>c. c \<le> u) cdf1 ! i \<le> u" by (auto dest: set_takeWhileD)
    moreover have "takeWhile (\<lambda>c. c \<le> u) cdf1 ! i = cdf1 ! i"
      using that unfolding c_def by (rule takeWhile_nth)
    ultimately show ?thesis by simp
  qed
  have "p ! c \<noteq> 0"
  proof
    assume z: "p ! c = 0"
    show False
    proof (cases c)
      case 0
      then have "cdf1 ! c = 0" using nth[OF lt] z lt by (simp add: sum_list_take_Suc)
      then show False using above u(1) by simp
    next
      case (Suc k)
      have "cdf1 ! c = sum_list (take c p) / sum_list p"
        using nth[OF lt] z lt by (simp add: sum_list_take_Suc)
      also have "\<dots> = cdf1 ! k" using nth[of k] lt Suc by simp
      also have "\<dots> \<le> u" using below[of k] Suc by simp
      finally show False using above by simp
    qed
  qed
  moreover have "0 \<le> p ! c" using nonneg lt by simp
  ultimately show ?thesis using lt by simp
qed

lemma atol_small: "0 \<le> atol" "atol < 1"
  by (simp_all add: atol_def)

lemma choice_Inr:
  assumes "choice u a p = Inr c" "0 \<le> u" "u < 1"
  shows "c < length p \<and> 0 < p ! c \<and> int (length p) = a"
proof -
  from assms(1) have a: "0 < a" and len: "int (length p) = a"
    and nn: "\<not> list_ex (\<lambda>x. x < 0) p" and tol: "\<not> \<bar>sum_list p - 1\<bar> > atol"
    and c: "c = length (takeWhile (\<lambda>c. c \<le> u)
                  (map (\<lambda>c. c / last (cumsum_from 0 p)) (cumsum_from 0 p)))"
    by (auto simp: choice_def Let_def split: if_splits)
  from nn have nonneg: "\<forall>x \<in> set p. 0 \<le> x" by (auto simp: list_ex_iff not_less)
  from tol atol_small(2) have S: "0 < sum_list p" by linarith
  from searchsorted_positive[OF nonneg S assms(2,3)] c len show ?thesis by simp
qed

lemma choice_returns:
  assumes "0 < length p" "\<forall>x \<in> set p. 0 \<le> x" "sum_list p = 1" "0 \<le> u" "u < 1"
  shows "\<exists>c<length p. choice u (int (length p)) p = Inr c \<and> 0 < p ! c"
proof -
  have nn: "\<not> list_ex (\<lambda>x. x < 0) p" using assms(2) by (auto simp: list_ex_iff not_less)
  have "\<exists>c. choice u (int (length p)) p = Inr c"
    using assms(1,3) nn atol_small(1) by (simp add: choice_def Let_def)
  then obtain c where c: "choice u (int (length p)) p = Inr c" ..
  from choice_Inr[OF c assms(4,5)] c show ?thesis by blast
qed

lemma sum_list_renorm: "sum_list p \<noteq> 0 \<Longrightarrow> sum_list (renorm p) = 1"
proof -
  have "sum_list (map (\<lambda>x. x / s) xs) = sum_list xs / s" for s :: real and xs
    by (induction xs) (simp_all add: add_divide_distrib)
  then show "sum_list p \<noteq> 0 \<Longrightarrow> sum_list (renorm p) = 1" by (simp add: renorm_def)
qed

lemma length_renorm: "length (renorm p) = length p"
  by (simp add: renorm_def)

lemma nth_renorm: "i < length p \<Longrightarrow> renorm p ! i = p ! i / sum_list p"
  by (simp add: renorm_def)

lemma one_hot_sum:
  fixes p :: "real list"
  assumes h: "h < length p" and one: "p ! h = 1" and zero: "\<forall>i<length p. i \<noteq> h \<longrightarrow> p ! i = 0"
  shows "sum_list p = 1"
proof -
  have "sum_list p = (\<Sum>i = 0..<length p. p ! i)" by (rule sum_list_sum_nth)
  also have "\<dots> = (\<Sum>i = 0..<length p. if i = h then 1 else 0)"
    using one zero by (intro sum.cong) auto
  also have "\<dots> = 1" using h by simp
  finally show ?thesis .
qed

subsection \<open>The call as a whole\<close>

lemma pick_top_n_vec:
  "length (st preds) \<noteq> 1 \<Longrightarrow>
   pick_top_n argsort u st preds vocab_size k =
     (st(preds := keep_top argsort (st preds) k),
      if sum_list (keep_top argsort (st preds) k) = 0 then Inl ValueError
      else choice u vocab_size (renorm (keep_top argsort (st preds) k)))"
  by (simp add: pick_top_n_def squeeze_def Let_def)

lemma pick_top_n_scalar:
  "length (st preds) = 1 \<Longrightarrow> pick_top_n argsort u st preds vocab_size k = (st, Inl IndexError)"
  by (simp add: pick_top_n_def squeeze_def)

lemma keep_top_nonneg:
  assumes "is_argsort p (argsort p)" "\<forall>x \<in> set p. 0 \<le> x"
  shows "\<forall>x \<in> set (keep_top argsort p k). 0 \<le> x"
proof -
  have "0 \<le> keep_top argsort p k ! i" if "i < length p" for i
    using nth_keep_top[where argsort = argsort and p = p, OF assms(1) that, of k] assms(2) that by simp
  then show ?thesis by (auto simp: in_set_conv_nth length_keep_top)
qed

text \<open>
  On a one-dimensional view with non-negative entries whose kept mass is positive, the
  call returns an index of positive kept weight.
\<close>

lemma pick_top_n_returns:
  assumes arg: "is_argsort (st preds) (argsort (st preds))"
    and V: "2 \<le> length (st preds)" and vs: "vocab_size = int (length (st preds))"
    and nonneg: "\<forall>x \<in> set (st preds). 0 \<le> x"
    and mass: "sum_list (keep_top argsort (st preds) k) \<noteq> 0"
    and u: "0 \<le> u" "u < 1"
  shows "\<exists>c<length (st preds). snd (pick_top_n argsort u st preds vocab_size k) = Inr c \<and>
           0 < keep_top argsort (st preds) k ! c"
proof -
  let ?q = "keep_top argsort (st preds) k"
  have lq: "length (renorm ?q) = length (st preds)" by (simp add: length_renorm length_keep_top)
  have qnn: "\<forall>x \<in> set ?q. 0 \<le> x"
    by (rule keep_top_nonneg[where argsort = argsort and p = "st preds", OF arg nonneg])
  then have "0 \<le> sum_list ?q" by (intro sum_list_nonneg) simp
  with mass have S: "0 < sum_list ?q" by simp
  have rnn: "\<forall>x \<in> set (renorm ?q). 0 \<le> x"
    using qnn S by (auto simp: renorm_def)
  have "0 < length (st preds)" using V by linarith
  then have "0 < length (renorm ?q)" by (simp only: lq)
  from choice_returns[OF this rnn sum_list_renorm[OF mass] u]
  obtain c where c: "c < length (st preds)" "choice u vocab_size (renorm ?q) = Inr c"
      "0 < renorm ?q ! c"
    unfolding lq vs by blast
  have "renorm ?q ! c = ?q ! c / sum_list ?q"
    using c(1) by (simp add: nth_renorm length_keep_top)
  with c(3) S have "0 < ?q ! c" by (simp add: zero_less_divide_iff)
  moreover have "snd (pick_top_n argsort u st preds vocab_size k) = Inr c"
    using V mass c(2) by (simp add: pick_top_n_vec)
  ultimately show ?thesis using c(1) by blast
qed

text \<open>
  For a probability vector of length \<open>V = vocab_size \<ge> 2\<close> and \<open>1 \<le> top_n \<le> V\<close> the call
  returns an index.
\<close>

lemma pick_top_n_total:
  assumes arg: "is_argsort (st preds) (argsort (st preds))"
    and V: "2 \<le> length (st preds)" and vs: "vocab_size = int (length (st preds))"
    and nonneg: "\<forall>x \<in> set (st preds). 0 \<le> x" and total: "sum_list (st preds) = 1"
    and k: "1 \<le> k" "k \<le> vocab_size" and u: "0 \<le> u" "u < 1"
  shows "\<exists>c<length (st preds). snd (pick_top_n argsort u st preds vocab_size k) = Inr c"
proof -
  let ?p = "st preds"
  have len: "length (argsort ?p) = length ?p" by (rule is_argsort_length[OF arg])
  have n: "slice_stop (length ?p) (- k) = length ?p - nat k"
    using k vs by (intro slice_stop_in_range) simp_all
  then have nV: "slice_stop (length ?p) (- k) < length ?p" using k V by linarith
  have "sum_list ?p \<noteq> 0" using total by simp
  from kept_mass_positive[OF arg nonneg this nV]
  have "sum_list (keep_top argsort ?p k) \<noteq> 0"
    by (simp add: keep_top_def py_take_def len)
  from pick_top_n_returns[where argsort = argsort and st = st and preds = preds,
      OF arg V vs nonneg this u]
  show ?thesis by blast
qed

subsection \<open>Calls on vectors of at least two entries\<close>

text \<open>
  For a vector of length \<open>V \<ge> 2\<close> with the entry one at \<open>h\<close> and zero elsewhere, and
  \<open>1 \<le> top_n \<le> V\<close>, the call returns \<open>h\<close> for every sample \<open>u\<close> of the random source.
\<close>

lemma pick_top_n_one_hot:
  assumes arg: "is_argsort (st preds) (argsort (st preds))"
    and V: "2 \<le> length (st preds)" and vs: "vocab_size = int (length (st preds))"
    and h: "h < length (st preds)" and one: "st preds ! h = 1"
    and zero: "\<forall>i<length (st preds). i \<noteq> h \<longrightarrow> st preds ! i = 0"
    and k: "1 \<le> k" "k \<le> vocab_size" and u: "0 \<le> u" "u < 1"
  shows "snd (pick_top_n argsort u st preds vocab_size k) = Inr h"
proof -
  let ?p = "st preds"
  let ?q = "keep_top argsort ?p k"
  let ?n = "slice_stop (length ?p) (- k)"
  have n: "?n = length ?p - nat k" using k vs by (intro slice_stop_in_range) simp_all
  then have nV: "?n < length ?p" using k h by linarith
  have mx: "\<forall>i<length ?p. i \<noteq> h \<longrightarrow> ?p ! i < ?p ! h" using one zero by simp
  have hk: "h \<notin> set (take ?n (argsort ?p))" by (rule strict_max_kept[OF arg h mx nV])
  have "?q ! i = ?p ! i" if "i < length ?p" for i
    using nth_keep_top[where argsort = argsort and p = ?p, OF arg that, of k] hk zero that
    by (cases "i = h") auto
  then have q: "?q = ?p" by (simp add: list_eq_iff_nth_eq length_keep_top)
  have nonneg: "\<forall>x \<in> set ?p. 0 \<le> x"
  proof
    fix x assume "x \<in> set ?p"
    then obtain i where "i < length ?p" "?p ! i = x" by (auto simp: in_set_conv_nth)
    then show "0 \<le> x" using one zero by (cases "i = h") auto
  qed
  have "sum_list ?q \<noteq> 0" using one_hot_sum[OF h one zero] q by simp
  from pick_top_n_returns[where argsort = argsort and st = st and preds = preds, OF arg V vs nonneg this u]
  obtain c where c: "c < length ?p" "snd (pick_top_n argsort u st preds vocab_size k) = Inr c"
      "0 < ?q ! c"
    by blast
  have "c = h" using c(1,3) zero q by (cases "c = h") auto
  with c(2) show ?thesis by simp
qed

lemma pick_top_n_one_hot_example:
  "is_argsort (store_of [0, 0, 1, 0] 0) (stable_argsort (store_of [0, 0, 1, 0] 0)) \<and>
   2 \<le> length (store_of [0, 0, 1, 0] 0) \<and> 4 = int (length (store_of [0, 0, 1, 0] 0)) \<and>
   2 < length (store_of [0, 0, 1, 0] 0) \<and> store_of [0, 0, 1, 0] 0 ! 2 = 1 \<and>
   (1::int) \<le> 3 \<and> (3::int) \<le> 4 \<and> (0::real) \<le> 9 / 10 \<and> (9 / 10 :: real) < 1 \<and>
   snd (pick_top_n stable_argsort (9 / 10) (store_of [0, 0, 1, 0]) 0 4 3) = Inr 2"
proof -
  let ?st = "store_of [0, 0, 1, 0]"
  have a: "is_argsort (?st 0) (stable_argsort (?st 0))" by (rule stable_argsort_is_argsort)
  have z: "\<forall>i<length (?st 0). i \<noteq> 2 \<longrightarrow> ?st 0 ! i = 0"
    by (simp add: store_of_def nth_Cons split: nat.split)
  have "snd (pick_top_n stable_argsort (9 / 10) ?st 0 4 3) = Inr 2"
    using pick_top_n_one_hot[where argsort = stable_argsort and st = ?st and preds = 0 and h = 2
        and vocab_size = 4 and k = 3 and u = "9 / 10", OF a _ _ _ _ z]
    by (simp add: store_of_def)
  then show ?thesis using a by (simp add: store_of_def)
qed

text \<open>
  For a probability vector of length \<open>V = vocab_size \<ge> 2\<close>, and \<open>top_n = 0\<close> or
  \<open>top_n \<ge> vocab_size\<close>: the call clears no entry, leaves the store as it was and returns
  an index of positive probability.
\<close>

lemma pick_top_n_unrestricted:
  assumes arg: "is_argsort (st preds) (argsort (st preds))"
    and V: "2 \<le> length (st preds)" and vs: "vocab_size = int (length (st preds))"
    and nonneg: "\<forall>x \<in> set (st preds). 0 \<le> x" and total: "sum_list (st preds) = 1"
    and k: "k = 0 \<or> vocab_size \<le> k" and u: "0 \<le> u" "u < 1"
  shows "fst (pick_top_n argsort u st preds vocab_size k) = st \<and>
         keep_top argsort (st preds) k = st preds \<and>
         (\<exists>c<length (st preds).
            snd (pick_top_n argsort u st preds vocab_size k) = Inr c \<and> 0 < st preds ! c)"
proof -
  let ?p = "st preds"
  have q: "keep_top argsort ?p k = ?p"
    using k vs by (intro keep_top_nothing[where argsort = argsort and p = ?p, OF arg]) simp
  have vec: "length ?p \<noteq> 1" using V by simp
  have 1: "fst (pick_top_n argsort u st preds vocab_size k) = st"
    using vec by (simp add: pick_top_n_vec q)
  have "sum_list (keep_top argsort ?p k) \<noteq> 0" using q total by simp
  from pick_top_n_returns[where argsort = argsort and st = st and preds = preds,
      OF arg V vs nonneg this u]
  have 3: "\<exists>c<length ?p. snd (pick_top_n argsort u st preds vocab_size k) = Inr c \<and> 0 < ?p ! c"
    unfolding q by blast
  show ?thesis using 1 q 3 by blast
qed

text \<open>
  Outside the range \<open>[1, V]\<close> the slice \<open>[:-top_n]\<close> selects the first
  \<open>max(0, min(-top_n, V))\<close> indices of the argsort.
\<close>

lemma slice_stop_out_of_range:
  "k < 1 \<or> int V < k \<Longrightarrow> slice_stop V (- k) = nat (min (- k) (int V))"
  by (auto simp: slice_stop_def)

lemma zero_at_all:
  assumes "is_argsort p idx"
  shows "sum_list (zero_at idx p) = 0"
proof -
  have set: "set idx = {..<length p}" using assms by (simp add: is_argsort_def)
  have "zero_at idx p ! i = 0" if "i < length p" for i
    using that set by (simp add: nth_zero_at)
  then have "zero_at idx p = replicate (length p) 0"
    by (simp add: list_eq_iff_nth_eq length_zero_at)
  then show ?thesis by (simp add: sum_list_replicate)
qed

section \<open>Claims about the constrained sampler\<close>

text \<open>
  In the theorems of this section \<open>st\<close> is the store before the call, \<open>preds\<close> the
  address of the caller's array, \<open>u\<close> the uniform sample of \<open>[0, 1)\<close> that the call takes
  from the random source, and \<open>argsort\<close> any function that returns, for the contents
  of \<open>preds\<close>, a permutation of the indices that sorts them ascending.
\<close>

text \<open>
  C6. The specification lists an \<open>InvalidTopN\<close> error for \<open>top_n\<close> outside
  \<open>[1, vocab_size]\<close>. The code never compares \<open>top_n\<close> with \<open>vocab_size\<close> and raises
  nothing on account of \<open>top_n\<close>. What holds, for a probability vector of length
  \<open>V = vocab_size \<ge> 2\<close> and every \<open>top_n\<close> outside \<open>[1, V]\<close>: the call clears the entries at
  the first \<open>n = max(0, min(-top_n, V))\<close> indices of the argsort, none of them larger than
  an entry it keeps (so nothing for \<open>top_n = 0\<close> and for \<open>top_n > V\<close>); for \<open>top_n \<le> -V\<close>
  every entry is cleared and \<open>np.random.choice\<close> raises \<open>ValueError\<close>; for every other
  \<open>top_n\<close> the call returns an index of positive probability that was not cleared.
  With \<open>preds = [0.2, 0.5, 0.3]\<close>, and \<open>top_n = 0\<close> or \<open>top_n = 4\<close>, the call returns
  index 1.
\<close>

theorem pick_top_n_no_range_check:
  assumes arg: "is_argsort (st preds) (argsort (st preds))"
    and V: "2 \<le> length (st preds)" and vs: "vocab_size = int (length (st preds))"
    and nonneg: "\<forall>x \<in> set (st preds). 0 \<le> x" and total: "sum_list (st preds) = 1"
    and out: "k < 1 \<or> vocab_size < k" and u: "0 \<le> u" "u < 1"
  shows "(\<forall>i<length (st preds).
            keep_top argsort (st preds) k ! i =
              (if i \<in> set (take (nat (min (- k) vocab_size)) (argsort (st preds)))
               then 0 else st preds ! i)) \<and>
         card (set (take (nat (min (- k) vocab_size)) (argsort (st preds))))
           = nat (min (- k) vocab_size) \<and>
         (\<forall>i \<in> set (take (nat (min (- k) vocab_size)) (argsort (st preds))).
            \<forall>j<length (st preds).
              j \<notin> set (take (nat (min (- k) vocab_size)) (argsort (st preds))) \<longrightarrow>
              st preds ! i \<le> st preds ! j) \<and>
         (k \<le> - vocab_size \<longrightarrow>
            snd (pick_top_n argsort u st preds vocab_size k) = Inl ValueError) \<and>
         (- vocab_size < k \<longrightarrow>
            (\<exists>c<length (st preds).
               snd (pick_top_n argsort u st preds vocab_size k) = Inr c \<and>
               0 < st preds ! c \<and>
               c \<notin> set (take (nat (min (- k) vocab_size)) (argsort (st preds)))))"
proof -
  let ?p = "st preds"
  let ?V = "length ?p"
  let ?n = "nat (min (- k) vocab_size)"
  let ?q = "keep_top argsort ?p k"
  let ?r = "pick_top_n argsort u st preds vocab_size k"
  have len: "length (argsort ?p) = ?V" by (rule is_argsort_length[OF arg])
  have dist: "distinct (argsort ?p)" using arg by (simp add: is_argsort_def)
  have n: "slice_stop ?V (- k) = ?n"
    using out unfolding vs by (rule slice_stop_out_of_range)
  have nle: "?n \<le> ?V" using vs by simp
  have q: "?q = zero_at (take ?n (argsort ?p)) ?p"
    by (simp add: keep_top_def py_take_def len n)
  have 1: "\<forall>i<?V. ?q ! i = (if i \<in> set (take ?n (argsort ?p)) then 0 else ?p ! i)"
    by (simp add: q nth_zero_at)
  have "card (set (take ?n (argsort ?p))) = length (take ?n (argsort ?p))"
    using dist by (intro distinct_card) simp
  then have 2: "card (set (take ?n (argsort ?p))) = ?n" using nle len by simp
  have 3: "\<forall>i \<in> set (take ?n (argsort ?p)). \<forall>j<?V.
              j \<notin> set (take ?n (argsort ?p)) \<longrightarrow> ?p ! i \<le> ?p ! j"
    using cleared_below_kept[OF arg] by blast
  have vec: "?V \<noteq> 1" using V by simp
  have 4: "snd ?r = Inl ValueError" if "k \<le> - vocab_size"
  proof -
    from that vs have "?n = ?V" by simp
    then have "take ?n (argsort ?p) = argsort ?p" using len by simp
    then have "sum_list ?q = 0" using zero_at_all[OF arg] by (simp add: q)
    then show ?thesis using vec by (simp add: pick_top_n_vec)
  qed
  have 5: "\<exists>c<?V. snd ?r = Inr c \<and> 0 < ?p ! c \<and> c \<notin> set (take ?n (argsort ?p))"
    if "- vocab_size < k"
  proof -
    from that vs V have nV: "?n < ?V" by simp
    have "sum_list ?p \<noteq> 0" using total by simp
    from kept_mass_positive[OF arg nonneg this nV]
    have mass: "sum_list ?q \<noteq> 0" by (simp add: q)
    from pick_top_n_returns[where argsort = argsort and st = st and preds = preds,
        OF arg V vs nonneg mass u]
    obtain c where c: "c < ?V" "snd ?r = Inr c" "0 < ?q ! c" by blast
    from c(1,3) 1 have "0 < ?p ! c \<and> c \<notin> set (take ?n (argsort ?p))"
      by (auto split: if_splits)
    with c(1,2) show ?thesis by blast
  qed
  show ?thesis using 1 2 3 4 5 by blast
qed

theorem pick_top_n_no_range_check_witness:
  "is_argsort (store_of [1 / 5, 1 / 2, 3 / 10] 0) (stable_argsort (store_of [1 / 5, 1 / 2, 3 / 10] 0)) \<and>
   2 \<le> length (store_of [1 / 5, 1 / 2, 3 / 10] 0) \<and>
   3 = int (length (store_of [1 / 5, 1 / 2, 3 / 10] 0)) \<and>
   sum_list (store_of [1 / 5, 1 / 2, 3 / 10] 0) = 1 \<and>
   (- 1 :: int) < 1 \<and> (- 3 :: int) < 1 \<and> (0::real) \<le> 1 / 2 \<and> (1 / 2 :: real) < 1 \<and>
   (\<exists>c<length (store_of [1 / 5, 1 / 2, 3 / 10] 0).
       snd (pick_top_n stable_argsort (1 / 2) (store_of [1 / 5, 1 / 2, 3 / 10]) 0 3 (- 1)) = Inr c \<and>
       0 < store_of [1 / 5, 1 / 2, 3 / 10] 0 ! c \<and>
       c \<notin> set (take (nat (min (- (- 1)) 3)) (stable_argsort (store_of [1 / 5, 1 / 2, 3 / 10] 0)))) \<and>
   snd (pick_top_n stable_argsort (1 / 2) (store_of [1 / 5, 1 / 2, 3 / 10]) 0 3 (- 3)) = Inl ValueError"
proof -
  let ?st = "store_of [1 / 5, 1 / 2, 3 / 10]"
  have a: "is_argsort (?st 0) (stable_argsort (?st 0))" by (rule stable_argsort_is_argsort)
  have s: "sum_list (?st 0) = 1" by (simp add: store_of_def)
  have nn: "\<forall>x \<in> set (?st 0). 0 \<le> x" by (simp add: store_of_def)
  have l: "2 \<le> length (?st 0)" "3 = int (length (?st 0))" by (simp_all add: store_of_def)
  have o1: "(- 1 :: int) < 1 \<or> (3::int) < - 1" and o3: "(- 3 :: int) < 1 \<or> (3::int) < - 3"
    by simp_all
  have u: "(0::real) \<le> 1 / 2" "(1 / 2 :: real) < 1" by simp_all
  note t1 = pick_top_n_no_range_check[where argsort = stable_argsort and st = ?st and preds = 0
        and vocab_size = 3 and k = "- 1" and u = "1 / 2", OF a l nn s o1 u]
  note t3 = pick_top_n_no_range_check[where argsort = stable_argsort and st = ?st and preds = 0
        and vocab_size = 3 and k = "- 3" and u = "1 / 2", OF a l nn s o3 u]
  have m: "(- 3 :: int) < 3" "(- 3 :: int) \<le> - 3" by simp_all
  from t1 m(1) have r1: "\<exists>c<length (?st 0).
       snd (pick_top_n stable_argsort (1 / 2) ?st 0 3 (- 1)) = Inr c \<and>
       0 < ?st 0 ! c \<and>
       c \<notin> set (take (nat (min (- (- 1)) 3)) (stable_argsort (?st 0)))"
    by simp
  from t3 m(2) have r3: "snd (pick_top_n stable_argsort (1 / 2) ?st 0 3 (- 3)) = Inl ValueError"
    by blast
  show ?thesis using a l s u r1 r3 by simp
qed

theorem pick_top_n_no_range_check_counterexample:
  "snd (pick_top_n stable_argsort (1 / 2) (store_of [1 / 5, 1 / 2, 3 / 10]) 0 3 0) = Inr 1 \<and>
   snd (pick_top_n stable_argsort (1 / 2) (store_of [1 / 5, 1 / 2, 3 / 10]) 0 3 4) = Inr 1"
  by (simp add: pick_top_n_def squeeze_def keep_top_def stable_argsort_def py_take_def
      slice_stop_def zero_at_def renorm_def choice_def atol_def store_of_def)

text \<open>
  C7. For \<open>1 \<le> k \<le> vocab_size\<close>, every index \<open>c\<close> that \<open>pick_top_n\<close> returns is an index
  of \<open>preds\<close> with fewer than \<open>k\<close> entries strictly above it: its mass before the
  renormalization is among the \<open>k\<close> largest, or tied with the \<open>k\<close>-th largest. And every
  index with at least \<open>k\<close> entries strictly above it has the renormalized weight zero.
\<close>

theorem pick_top_n_among_top:
  assumes arg: "is_argsort (st preds) (argsort (st preds))"
    and k: "1 \<le> k" "k \<le> vocab_size" and u: "0 \<le> u" "u < 1"
    and ret: "snd (pick_top_n argsort u st preds vocab_size k) = Inr c"
  shows "c < length (st preds) \<and> int (length (st preds)) = vocab_size \<and>
         card {j. j < length (st preds) \<and> st preds ! c < st preds ! j} < nat k \<and>
         (\<forall>i<length (st preds).
            nat k \<le> card {j. j < length (st preds) \<and> st preds ! i < st preds ! j} \<longrightarrow>
            renorm (keep_top argsort (st preds) k) ! i = 0)"
proof -
  let ?p = "st preds"
  let ?q = "keep_top argsort ?p k"
  let ?n = "slice_stop (length ?p) (- k)"
  have vec: "length ?p \<noteq> 1"
    using ret pick_top_n_scalar[of st preds argsort u vocab_size k] by auto
  from ret vec have mass: "sum_list ?q \<noteq> 0" and ch: "choice u vocab_size (renorm ?q) = Inr c"
    by (auto simp: pick_top_n_vec split: if_splits)
  from choice_Inr[OF ch u] have c: "c < length ?p" "0 < renorm ?q ! c"
    and vs: "int (length ?p) = vocab_size"
    by (simp_all add: length_renorm length_keep_top)
  have n: "?n = length ?p - nat k" using k vs by (intro slice_stop_in_range) simp_all
  have top: "card {j. j < length ?p \<and> ?p ! i < ?p ! j} < nat k"
    if i: "i < length ?p" and kept: "i \<notin> set (take ?n (argsort ?p))" for i
  proof -
    have "card {j. j < length ?p \<and> ?p ! i < ?p ! j} < length ?p - ?n"
      by (rule kept_is_top[OF arg i kept])
    also have "length ?p - ?n = nat k" using k vs unfolding n by linarith
    finally show ?thesis .
  qed
  have "?q ! c \<noteq> 0" using c by (auto simp: nth_renorm length_keep_top)
  then have "c \<notin> set (take ?n (argsort ?p))"
    using nth_keep_top[where argsort = argsort and p = ?p, OF arg c(1), of k] by (auto split: if_splits)
  from top[OF c(1) this] have 1: "card {j. j < length ?p \<and> ?p ! c < ?p ! j} < nat k" .
  have 2: "renorm ?q ! i = 0"
    if i: "i < length ?p" and far: "nat k \<le> card {j. j < length ?p \<and> ?p ! i < ?p ! j}" for i
  proof -
    have "i \<in> set (take ?n (argsort ?p))" using top[OF i] far by fastforce
    then have "?q ! i = 0" using nth_keep_top[where argsort = argsort and p = ?p, OF arg i, of k] by simp
    then show ?thesis using i by (simp add: nth_renorm length_keep_top)
  qed
  show ?thesis using c(1) vs 1 2 by blast
qed

theorem pick_top_n_among_top_witness:
  "is_argsort (store_of [1 / 5, 1 / 2, 3 / 10] 0) (stable_argsort (store_of [1 / 5, 1 / 2, 3 / 10] 0)) \<and>
   (1::int) \<le> 2 \<and> (2::int) \<le> 3 \<and> (0::real) \<le> 1 / 2 \<and> (1 / 2 :: real) < 1 \<and>
   snd (pick_top_n stable_argsort (1 / 2) (store_of [1 / 5, 1 / 2, 3 / 10]) 0 3 2) = Inr 1 \<and>
   1 < length (store_of [1 / 5, 1 / 2, 3 / 10] 0) \<and>
   card {j. j < length (store_of [1 / 5, 1 / 2, 3 / 10] 0) \<and>
            store_of [1 / 5, 1 / 2, 3 / 10] 0 ! 1 < store_of [1 / 5, 1 / 2, 3 / 10] 0 ! j} < nat 2 \<and>
   renorm (keep_top stable_argsort (store_of [1 / 5, 1 / 2, 3 / 10] 0) 2) = [0, 5 / 8, 3 / 8]"
proof -
  let ?st = "store_of [1 / 5, 1 / 2, 3 / 10]"
  have a: "is_argsort (?st 0) (stable_argsort (?st 0))" by (rule stable_argsort_is_argsort)
  have r: "snd (pick_top_n stable_argsort (1 / 2) ?st 0 3 2) = Inr 1"
    by (simp add: pick_top_n_def squeeze_def keep_top_def stable_argsort_def py_take_def
      slice_stop_def zero_at_def renorm_def choice_def atol_def store_of_def)
  have w: "renorm (keep_top stable_argsort (?st 0) 2) = [0, 5 / 8, 3 / 8]"
    by (simp add: keep_top_def stable_argsort_def py_take_def
      slice_stop_def zero_at_def renorm_def store_of_def)
  have k: "(1::int) \<le> 2" "(2::int) \<le> 3" by simp_all
  have u: "(0::real) \<le> 1 / 2" "(1 / 2 :: real) < 1" by simp_all
  note t = pick_top_n_among_top[where argsort = stable_argsort and st = ?st and preds = 0
        and vocab_size = 3 and k = 2 and u = "1 / 2" and c = 1, OF a k u r]
  show ?thesis using a k u r w t by blast
qed

text \<open>
  C8. A distribution with one entry of probability one and all others zero: the
  specification has \<open>pick_top_n\<close> return that entry's index on every run. The code does
  so for \<open>V \<ge> 2\<close> (\<open>pick_top_n_one_hot\<close>). For \<open>V = 1\<close> it raises: \<open>np.squeeze\<close>, called to
  drop the leading axis of length one, drops the axis of the vocabulary too, and the
  indexed assignment to the zero-dimensional view fails. The call evaluated at
  \<open>preds = [1.0]\<close>, \<open>vocab_size = 1\<close>, \<open>top_n = 1\<close>:
\<close>

theorem pick_top_n_single_entry_raises:
  "snd (pick_top_n stable_argsort (1 / 2) (store_of [1]) 0 1 1) = Inl IndexError"
  by (simp add: pick_top_n_def squeeze_def store_of_def)

text \<open>
  C9. The specification says that the caller's \<open>preds\<close> is unchanged after the call.
  The code writes to the caller's \<open>preds\<close> through the view, and to no other array.
  The length of \<open>preds\<close> is kept. For \<open>V = 1\<close> nothing is written. Otherwise the entries
  at the indices \<open>np.argsort(p)[:-top_n]\<close> become zero and all others keep their value;
  no cleared entry was larger than an entry that is kept, and for \<open>1 \<le> top_n \<le> V\<close> the
  number of cleared positions is \<open>V - top_n\<close>. After the call with
  \<open>preds = [0.1, 0.4, 0.2, 0.3]\<close> and \<open>top_n = 2\<close>, \<open>preds\<close> is \<open>[0, 0.4, 0, 0.3]\<close>.
\<close>

theorem pick_top_n_writes_preds:
  assumes arg: "is_argsort (st preds) (argsort (st preds))"
  shows "(\<forall>b. b \<noteq> preds \<longrightarrow> fst (pick_top_n argsort u st preds vocab_size k) b = st b) \<and>
         length (fst (pick_top_n argsort u st preds vocab_size k) preds) = length (st preds) \<and>
         (length (st preds) = 1 \<longrightarrow> fst (pick_top_n argsort u st preds vocab_size k) = st) \<and>
         (length (st preds) \<noteq> 1 \<longrightarrow>
            (\<forall>i<length (st preds).
               fst (pick_top_n argsort u st preds vocab_size k) preds ! i =
                 (if i \<in> set (take (slice_stop (length (st preds)) (- k)) (argsort (st preds)))
                  then 0 else st preds ! i))) \<and>
         (\<forall>i \<in> set (take (slice_stop (length (st preds)) (- k)) (argsort (st preds))).
            \<forall>j<length (st preds).
              j \<notin> set (take (slice_stop (length (st preds)) (- k)) (argsort (st preds))) \<longrightarrow>
              st preds ! i \<le> st preds ! j) \<and>
         card (set (take (slice_stop (length (st preds)) (- k)) (argsort (st preds))))
           = slice_stop (length (st preds)) (- k) \<and>
         (1 \<le> k \<and> k \<le> int (length (st preds)) \<longrightarrow>
            slice_stop (length (st preds)) (- k) = length (st preds) - nat k)"
proof -
  let ?p = "st preds"
  let ?n = "slice_stop (length ?p) (- k)"
  let ?r = "pick_top_n argsort u st preds vocab_size k"
  have len: "length (argsort ?p) = length ?p" by (rule is_argsort_length[OF arg])
  have dist: "distinct (argsort ?p)" using arg by (simp add: is_argsort_def)
  have 1: "\<forall>b. b \<noteq> preds \<longrightarrow> fst ?r b = st b"
    by (cases "length ?p = 1") (simp_all add: pick_top_n_scalar pick_top_n_vec)
  have 2: "length (fst ?r preds) = length ?p"
    by (cases "length ?p = 1") (simp_all add: pick_top_n_scalar pick_top_n_vec length_keep_top)
  have 3: "length ?p = 1 \<longrightarrow> fst ?r = st" by (simp add: pick_top_n_scalar)
  have 4: "length ?p \<noteq> 1 \<longrightarrow>
            (\<forall>i<length ?p. fst ?r preds ! i = (if i \<in> set (take ?n (argsort ?p)) then 0 else ?p ! i))"
    using nth_keep_top[where argsort = argsort and p = ?p, OF arg, of _ k]
    by (simp add: pick_top_n_vec)
  have 5: "\<forall>i \<in> set (take ?n (argsort ?p)). \<forall>j<length ?p.
              j \<notin> set (take ?n (argsort ?p)) \<longrightarrow> ?p ! i \<le> ?p ! j"
    using cleared_below_kept[OF arg] by blast
  have nle: "?n \<le> length ?p" by (auto simp: slice_stop_def)
  have "card (set (take ?n (argsort ?p))) = length (take ?n (argsort ?p))"
    using dist by (intro distinct_card) simp
  then have 6: "card (set (take ?n (argsort ?p))) = ?n" using nle len by simp
  have 7: "1 \<le> k \<and> k \<le> int (length ?p) \<longrightarrow> ?n = length ?p - nat k"
    by (simp add: slice_stop_in_range)
  show ?thesis using 1 2 3 4 5 6 7 by blast
qed

theorem pick_top_n_writes_preds_witness:
  "is_argsort (store_of [1 / 10, 2 / 5, 1 / 5, 3 / 10] 0)
     (stable_argsort (store_of [1 / 10, 2 / 5, 1 / 5, 3 / 10] 0)) \<and>
   fst (pick_top_n stable_argsort (1 / 2) (store_of [1 / 10, 2 / 5, 1 / 5, 3 / 10]) 0 4 2) 7
     = store_of [1 / 10, 2 / 5, 1 / 5, 3 / 10] 7 \<and>
   length (fst (pick_top_n stable_argsort (1 / 2) (store_of [1 / 10, 2 / 5, 1 / 5, 3 / 10]) 0 4 2) 0)
     = length (store_of [1 / 10, 2 / 5, 1 / 5, 3 / 10] 0) \<and>
   slice_stop (length (store_of [1 / 10, 2 / 5, 1 / 5, 3 / 10] 0)) (- 2)
     = length (store_of [1 / 10, 2 / 5, 1 / 5, 3 / 10] 0) - nat 2"
proof -
  let ?st = "store_of [1 / 10, 2 / 5, 1 / 5, 3 / 10]"
  have a: "is_argsort (?st 0) (stable_argsort (?st 0))" by (rule stable_argsort_is_argsort)
  have k: "(1::int) \<le> 2 \<and> 2 \<le> int (length (?st 0))" by (simp add: store_of_def)
  have n: "(7::nat) \<noteq> 0" by simp
  note t = pick_top_n_writes_preds[where argsort = stable_argsort and st = ?st and preds = 0
        and vocab_size = 4 and k = 2 and u = "1 / 2", OF a]
  show ?thesis using a k n t by blast
qed

theorem pick_top_n_writes_preds_counterexample:
  "store_of [1 / 10, 2 / 5, 1 / 5, 3 / 10] 0 = [1 / 10, 2 / 5, 1 / 5, 3 / 10] \<and>
   fst (pick_top_n stable_argsort (1 / 2) (store_of [1 / 10, 2 / 5, 1 / 5, 3 / 10]) 0 4 2) 0
     = [0, 2 / 5, 0, 3 / 10] \<and>
   fst (pick_top_n stable_argsort (1 / 2) (store_of [1 / 10, 2 / 5, 1 / 5, 3 / 10]) 0 4 2) 0
     \<noteq> store_of [1 / 10, 2 / 5, 1 / 5, 3 / 10] 0 \<and>
   snd (pick_top_n stable_argsort (1 / 2) (store_of [1 / 10, 2 / 5, 1 / 5, 3 / 10]) 0 4 2) = Inr 1"
  by (simp add: pick_top_n_def squeeze_def keep_top_def stable_argsort_def py_take_def
      slice_stop_def zero_at_def renorm_def choice_def atol_def store_of_def)

text \<open>
  C10. For \<open>top_n = 0\<close> and for \<open>top_n \<ge> vocab_size\<close> the call is to raise nothing and to
  clear nothing. The code does so for probability vectors of length \<open>V \<ge> 2\<close>
  (\<open>pick_top_n_unrestricted\<close>). For \<open>V = 1\<close> it raises, whatever \<open>top_n\<close> is, by the same
  defect as in C8: the view that \<open>np.squeeze\<close> returns has no axis left. The call
  evaluated at \<open>preds = [1.0]\<close>, \<open>vocab_size = 1\<close>, \<open>top_n = 0\<close>:
\<close>

theorem pick_top_n_single_entry_raises_unrestricted:
  "snd (pick_top_n stable_argsort (1 / 2) (store_of [1]) 0 1 0) = Inl IndexError"
  by (simp add: pick_top_n_def squeeze_def store_of_def)

end
